theory Spec2Isabelle
  imports Main "HOL-Library.Sublist"
begin

section \<open>Python strings, bytes and errors\<close>

text \<open>
  A Python \<open>str\<close> is a sequence of code points, so a string is a list of naturals
  (\<open>ustr\<close>); \<open>u\<close> turns an ASCII literal into such a list.  A \<open>bytes\<close> value is a
  list of naturals below 256.  A Python \<open>str\<close> may hold lone surrogates
  (\<open>json.load\<close> produces them from an escape such as \<open>\ud800\<close>); they have no UTF-8
  encoding and \<open>str.encode\<close> raises on them.
\<close>

type_synonym ustr = "nat list"
type_synonym bytes = "nat list"

definition u :: "string \<Rightarrow> ustr" where
  "u s = map of_char s"

datatype error =
    MissingRequired
  | InvalidDate ustr
  | InvalidTime ustr
  | NoTimezone ustr
  | InvalidStatus ustr
  | InvalidTransp ustr
  | EmptyEvents
  | StrptimeError
  | OverflowError
  | UnicodeEncodeError
  | UnicodeDecodeError

definition CR :: nat where "CR = 13"
definition LF :: nat where "LF = 10"
definition SP :: nat where "SP = 32"

definition CRLF :: ustr where "CRLF = [CR, LF]"

subsection \<open>\<open>str.join\<close>, \<open>str.replace\<close>, \<open>str.split\<close>\<close>

fun join :: "ustr \<Rightarrow> ustr list \<Rightarrow> ustr" where
  "join sep [] = []"
| "join sep [x] = x"
| "join sep (x # y # ys) = x @ sep @ join sep (y # ys)"

text \<open>
  \<open>s.replace(old, new)\<close> replaces the non-overlapping occurrences of \<open>old\<close>, found
  from the left; with an empty \<open>old\<close> Python puts \<open>new\<close> before every character and
  at the end.
\<close>

function replace :: "ustr \<Rightarrow> ustr \<Rightarrow> ustr \<Rightarrow> ustr" where
  "replace old new [] = (if old = [] then new else [])"
| "replace old new (c # cs) =
     (if old = [] then new @ concat (map (\<lambda>x. x # new) (c # cs))
      else if prefix old (c # cs) then new @ replace old new (drop (length old) (c # cs))
      else c # replace old new cs)"
  by pat_completeness auto
termination
  by (relation "measure (\<lambda>(old, new, s). length s)") auto

text \<open>
  \<open>s.split(sep)\<close> with a non-empty separator: the pieces between the non-overlapping
  occurrences of \<open>sep\<close>, found from the left; always at least one piece.  (Python raises
  on an empty separator; the program only splits at CRLF.)
\<close>

function split :: "ustr \<Rightarrow> ustr \<Rightarrow> ustr list" where
  "split sep [] = [[]]"
| "split sep (c # cs) =
     (if sep \<noteq> [] \<and> prefix sep (c # cs) then [] # split sep (drop (length sep) (c # cs))
      else (case split sep cs of [] \<Rightarrow> [[c]] | p # ps \<Rightarrow> (c # p) # ps))"
  by pat_completeness auto
termination
  by (relation "measure (\<lambda>(sep, s). length s)") auto

subsection \<open>UTF-8\<close>

text \<open>
  \<open>c.encode("utf-8")\<close> for one code point.  Surrogates (D800..DFFF) raise
  \<open>UnicodeEncodeError\<close>; a number from 110000 on is no Python character at all and is
  refused in the same way.
\<close>

definition utf8_char :: "nat \<Rightarrow> error + bytes" where
  "utf8_char c =
     (if c < 0x80 then Inr [c]
      else if c < 0x800 then Inr [0xC0 + c div 64, 0x80 + c mod 64]
      else if 0xD800 \<le> c \<and> c \<le> 0xDFFF then Inl UnicodeEncodeError
      else if c < 0x10000 then
        Inr [0xE0 + c div 4096, 0x80 + (c div 64) mod 64, 0x80 + c mod 64]
      else if c < 0x110000 then
        Inr [0xF0 + c div 262144, 0x80 + (c div 4096) mod 64,
             0x80 + (c div 64) mod 64, 0x80 + c mod 64]
      else Inl UnicodeEncodeError)"

fun utf8_encode :: "ustr \<Rightarrow> error + bytes" where
  "utf8_encode [] = Inr []"
| "utf8_encode (c # cs) =
     (case utf8_char c of
        Inl e \<Rightarrow> Inl e
      | Inr bs \<Rightarrow> (case utf8_encode cs of Inl e \<Rightarrow> Inl e | Inr r \<Rightarrow> Inr (bs @ r)))"

definition cont :: "nat \<Rightarrow> bool" where
  "cont b \<longleftrightarrow> 0x80 \<le> b \<and> b \<le> 0xBF"

definition dcons :: "nat \<Rightarrow> error + ustr \<Rightarrow> error + ustr" where
  "dcons c r = (case r of Inl e \<Rightarrow> Inl e | Inr s \<Rightarrow> Inr (c # s))"

text \<open>
  \<open>b.decode("utf-8")\<close>, strict as Python's decoder is: a truncated or overlong
  sequence, a stray continuation byte, an encoded surrogate and a value above 10FFFF
  all raise \<open>UnicodeDecodeError\<close>.
\<close>

fun utf8_decode :: "bytes \<Rightarrow> error + ustr" where
  "utf8_decode [] = Inr []"
| "utf8_decode (b0 # bs) =
     (if b0 < 0x80 then dcons b0 (utf8_decode bs)
      else if 0xC2 \<le> b0 \<and> b0 \<le> 0xDF then
        (case bs of
           b1 # r \<Rightarrow>
             if cont b1 then dcons ((b0 - 0xC0) * 64 + (b1 - 0x80)) (utf8_decode r)
             else Inl UnicodeDecodeError
         | _ \<Rightarrow> Inl UnicodeDecodeError)
      else if 0xE0 \<le> b0 \<and> b0 \<le> 0xEF then
        (case bs of
           b1 # b2 # r \<Rightarrow>
             (let c = (b0 - 0xE0) * 4096 + (b1 - 0x80) * 64 + (b2 - 0x80)
              in if cont b1 \<and> cont b2 \<and> 0x800 \<le> c \<and> \<not> (0xD800 \<le> c \<and> c \<le> 0xDFFF)
                 then dcons c (utf8_decode r) else Inl UnicodeDecodeError)
         | _ \<Rightarrow> Inl UnicodeDecodeError)
      else if 0xF0 \<le> b0 \<and> b0 \<le> 0xF4 then
        (case bs of
           b1 # b2 # b3 # r \<Rightarrow>
             (let c = (b0 - 0xF0) * 262144 + (b1 - 0x80) * 4096 + (b2 - 0x80) * 64 + (b3 - 0x80)
              in if cont b1 \<and> cont b2 \<and> cont b3 \<and> 0x10000 \<le> c \<and> c < 0x110000
                 then dcons c (utf8_decode r) else Inl UnicodeDecodeError)
         | _ \<Rightarrow> Inl UnicodeDecodeError)
      else Inl UnicodeDecodeError)"

section \<open>Line folding\<close>

text \<open>
  The loop of \<open>fold_line\<close> over the characters of the line: \<open>result\<close> is the list of
  finished chunks, \<open>current\<close> the bytes of the chunk being filled.
\<close>

fun fold_loop :: "ustr \<Rightarrow> ustr list \<Rightarrow> bytes \<Rightarrow> error + (ustr list \<times> bytes)" where
  "fold_loop [] result current = Inr (result, current)"
| "fold_loop (char # rest) result current =
     (case utf8_encode [char] of
        Inl e \<Rightarrow> Inl e
      | Inr char_bytes \<Rightarrow>
          (let limit = (if result = [] then 75 else 74 :: nat)
           in if length current + length char_bytes > limit then
                (case utf8_decode current of
                   Inl e \<Rightarrow> Inl e
                 | Inr chunk \<Rightarrow> fold_loop rest (result @ [chunk]) char_bytes)
              else fold_loop rest result (current @ char_bytes)))"

definition fold_line :: "ustr \<Rightarrow> error + ustr" where
  "fold_line line =
     (case utf8_encode line of
        Inl e \<Rightarrow> Inl e
      | Inr encoded \<Rightarrow>
          if length encoded \<le> 75 then Inr line
          else
            (case fold_loop line [] [] of
               Inl e \<Rightarrow> Inl e
             | Inr (result, current) \<Rightarrow>
                 if current \<noteq> [] then
                   (case utf8_decode current of
                      Inl e \<Rightarrow> Inl e
                    | Inr chunk \<Rightarrow> Inr (join (CRLF @ [SP]) (result @ [chunk])))
                 else Inr (join (CRLF @ [SP]) result)))"


definition fold_all :: "ustr list \<Rightarrow> error + ustr list" where
  "fold_all ls = foldr (\<lambda>l r. case fold_line l of
                                 Inl e \<Rightarrow> Inl e
                               | Inr f \<Rightarrow> (case r of Inl e \<Rightarrow> Inl e | Inr fs \<Rightarrow> Inr (f # fs)))
                  ls (Inr [])"

definition fold_content :: "ustr \<Rightarrow> error + ustr" where
  "fold_content content =
     (let lines = split CRLF content
      in case fold_all lines of Inl e \<Rightarrow> Inl e | Inr fs \<Rightarrow> Inr (join CRLF fs))"

text \<open>
  What a reader does to undo folding, in the words of the specification: every line
  terminator that is followed by a single space is removed.
\<close>

definition unfold_text :: "ustr \<Rightarrow> ustr" where
  "unfold_text s = replace (CRLF @ [SP]) [] s"

fun has_crlf :: "ustr \<Rightarrow> bool" where
  "has_crlf (a # b # r) = (a = CR \<and> b = LF \<or> has_crlf (b # r))"
| "has_crlf _ = False"

definition encoded_within :: "nat \<Rightarrow> ustr \<Rightarrow> bool" where
  "encoded_within n s = (case utf8_encode s of Inl e \<Rightarrow> False | Inr b \<Rightarrow> length b \<le> n)"

section \<open>Text escaping and temporal formatting\<close>

definition BSL :: nat where "BSL = 92"
definition SEMI :: nat where "SEMI = 59"
definition COMMA :: nat where "COMMA = 44"
definition LOWER_N :: nat where "LOWER_N = 110"

definition escape_text :: "ustr \<Rightarrow> ustr" where
  "escape_text text =
     (let text = replace [BSL] [BSL, BSL] text;
          text = replace [SEMI] [BSL, SEMI] text;
          text = replace [COMMA] [BSL, COMMA] text;
          text = replace [LF] [BSL, LOWER_N] text
      in text)"

text \<open>
  The inverse the specification describes: the reverse substitutions, in reverse order.
\<close>

definition unescape_text :: "ustr \<Rightarrow> ustr" where
  "unescape_text text =
     (let text = replace [BSL, LOWER_N] [LF] text;
          text = replace [BSL, COMMA] [COMMA] text;
          text = replace [BSL, SEMI] [SEMI] text;
          text = replace [BSL, BSL] [BSL] text
      in text)"

definition format_date :: "ustr \<Rightarrow> ustr" where
  "format_date date_str = replace (u ''-'') [] date_str"

definition format_datetime :: "ustr \<Rightarrow> ustr \<Rightarrow> ustr" where
  "format_datetime date_str time_str =
     replace (u ''-'') [] date_str @ u ''T'' @ replace (u '':'') [] time_str @ u ''00''"


section \<open>The runtime environment\<close>

text \<open>
  What the program takes from the Python runtime and not from its input: the Unicode
  character tables behind \<open>\d\<close>, \<open>\s\<close>, \<open>\w\<close> and \<open>str.lower\<close> (their ASCII part
  is written out below, the rest is a parameter), the random source of \<open>uuid.uuid4\<close> and
  the clock.  The \<open>n\<close>-th call of \<open>build_vevent\<close> draws \<open>uuid4_hex n\<close>, the 32
  hexadecimal digits of a fresh UUID, and reads \<open>utcnow n\<close>, the current UTC time
  already formatted by \<open>strftime("%Y%m%dT%H%M%SZ")\<close>.
\<close>

record env =
  nd_value :: "nat \<Rightarrow> nat option"
  uni_space :: "nat \<Rightarrow> bool"
  uni_word :: "nat \<Rightarrow> bool"
  str_lower :: "ustr \<Rightarrow> ustr"
  uuid4_hex :: "nat \<Rightarrow> ustr"
  utcnow :: "nat \<Rightarrow> ustr"

definition digit_value :: "env \<Rightarrow> nat \<Rightarrow> nat option" where
  "digit_value E c =
     (if 48 \<le> c \<and> c \<le> 57 then Some (c - 48)
      else if c < 128 then None
      else nd_value E c)"

definition is_digit :: "env \<Rightarrow> nat \<Rightarrow> bool" where
  "is_digit E c \<longleftrightarrow> digit_value E c \<noteq> None"

definition is_space :: "env \<Rightarrow> nat \<Rightarrow> bool" where
  "is_space E c \<longleftrightarrow>
     (if c < 128 then (9 \<le> c \<and> c \<le> 13) \<or> (28 \<le> c \<and> c \<le> 32) else uni_space E c)"

definition is_word :: "env \<Rightarrow> nat \<Rightarrow> bool" where
  "is_word E c \<longleftrightarrow>
     (if c < 128 then (48 \<le> c \<and> c \<le> 57) \<or> (65 \<le> c \<and> c \<le> 90) \<or> (97 \<le> c \<and> c \<le> 122) \<or> c = 95
      else uni_word E c)"

section \<open>Identifiers\<close>

definition strip :: "env \<Rightarrow> ustr \<Rightarrow> ustr" where
  "strip E s = rev (dropWhile (is_space E) (rev (dropWhile (is_space E) s)))"

text \<open>\<open>re.sub(r"[\s_]+", "-", slug)\<close>: every maximal run of spaces and underscores becomes one hyphen.\<close>

function hyphenate :: "env \<Rightarrow> ustr \<Rightarrow> ustr" where
  "hyphenate E [] = []"
| "hyphenate E (c # cs) =
     (if is_space E c \<or> c = 95
      then 45 # hyphenate E (dropWhile (\<lambda>x. is_space E x \<or> x = 95) cs)
      else c # hyphenate E cs)"
  by pat_completeness auto
termination
  by (relation "measure (\<lambda>(E, s). length s)") (auto simp: length_dropWhile_le less_Suc_eq_le)

definition slugify :: "env \<Rightarrow> ustr \<Rightarrow> ustr" where
  "slugify E text =
     (let slug = filter (\<lambda>c. is_word E c \<or> is_space E c \<or> c = 45) (strip E (str_lower E text))
      in take 40 (hyphenate E slug))"

definition generate_uid :: "env \<Rightarrow> nat \<Rightarrow> ustr \<Rightarrow> ustr \<Rightarrow> ustr" where
  "generate_uid E n summary date =
     (let short_uuid = take 8 (uuid4_hex E n);
          slug = slugify E summary
      in slug @ u ''-'' @ date @ u ''-'' @ short_uuid @ u ''@claude'')"

section \<open>Numbers and dates of the standard library\<close>

text \<open>\<open>str(n)\<close> for an integer, as an f-string prints it.\<close>

function digits :: "nat \<Rightarrow> ustr" where
  "digits n = (if n < 10 then [48 + n] else digits (n div 10) @ [48 + n mod 10])"
  by pat_completeness auto
termination
  by (relation "measure id") auto

declare digits.simps [simp del]

definition str_int :: "int \<Rightarrow> ustr" where
  "str_int i = (if i < 0 then 45 # digits (nat (- i)) else digits (nat i))"

definition is_leap :: "nat \<Rightarrow> bool" where
  "is_leap y \<longleftrightarrow> y mod 4 = 0 \<and> (y mod 100 \<noteq> 0 \<or> y mod 400 = 0)"

definition days_in_month :: "nat \<Rightarrow> nat \<Rightarrow> nat" where
  "days_in_month y m =
     (if m = 2 then (if is_leap y then 29 else 28)
      else if m = 4 \<or> m = 6 \<or> m = 9 \<or> m = 11 then 30 else 31)"

text \<open>
  The pattern \<open>^\d{4}-\d{2}-\d{2}$\<close> under \<open>re.match\<close>: \<open>\d\<close> is any Unicode decimal
  digit, and \<open>$\<close> also matches just before a newline that ends the string.
\<close>

fun date_shape :: "env \<Rightarrow> ustr \<Rightarrow> bool" where
  "date_shape E [y1, y2, y3, y4, h1, m1, m2, h2, d1, d2] =
     (is_digit E y1 \<and> is_digit E y2 \<and> is_digit E y3 \<and> is_digit E y4 \<and> h1 = 45 \<and>
      is_digit E m1 \<and> is_digit E m2 \<and> h2 = 45 \<and> is_digit E d1 \<and> is_digit E d2)"
| "date_shape E _ = False"

definition match_date :: "env \<Rightarrow> ustr \<Rightarrow> bool" where
  "match_date E s \<longleftrightarrow>
     date_shape E s \<or> (length s = 11 \<and> last s = LF \<and> date_shape E (butlast s))"

text \<open>The pattern \<open>^\d{2}:\d{2}$\<close>.\<close>

fun time_shape :: "env \<Rightarrow> ustr \<Rightarrow> bool" where
  "time_shape E [a, b, c, d, e] =
     (is_digit E a \<and> is_digit E b \<and> c = 58 \<and> is_digit E d \<and> is_digit E e)"
| "time_shape E _ = False"

definition match_time :: "env \<Rightarrow> ustr \<Rightarrow> bool" where
  "match_time E s \<longleftrightarrow>
     time_shape E s \<or> (length s = 6 \<and> last s = LF \<and> time_shape E (butlast s))"

text \<open>
  \<open>datetime.strptime(s, "%Y-%m-%d")\<close> for a string that has passed \<open>match_date\<close>, the
  only strings the program parses.  The library matches \<open>%Y\<close> with \<open>\d\d\d\d\<close>, \<open>%m\<close>
  with \<open>1[0-2]|0[1-9]|[1-9]\<close> and \<open>%d\<close> with \<open>3[0-1]|[1-2]\d|0[1-9]|[1-9]| [1-9]\<close>,
  refuses whatever is left over (a second digit that did not fit, the trailing
  newline), and then builds the date, which refuses year 0 and a day beyond the end of
  the month.  Each refusal is a \<open>ValueError\<close>.
\<close>

fun strptime :: "env \<Rightarrow> ustr \<Rightarrow> error + (nat \<times> nat \<times> nat)" where
  "strptime E [y1, y2, y3, y4, h1, m1, m2, h2, d1, d2] =
     (case (digit_value E y1, digit_value E y2, digit_value E y3, digit_value E y4) of
        (Some a, Some b, Some c, Some d) \<Rightarrow>
          (let year = 1000 * a + 100 * b + 10 * c + d;
               month_ok = (m1 = 49 \<and> 48 \<le> m2 \<and> m2 \<le> 50) \<or> (m1 = 48 \<and> 49 \<le> m2 \<and> m2 \<le> 57);
               month = 10 * (m1 - 48) + (m2 - 48);
               day_ok = (d1 = 51 \<and> 48 \<le> d2 \<and> d2 \<le> 49) \<or>
                        ((d1 = 49 \<or> d1 = 50) \<and> is_digit E d2) \<or>
                        (d1 = 48 \<and> 49 \<le> d2 \<and> d2 \<le> 57);
               day = 10 * (d1 - 48) + (case digit_value E d2 of Some v \<Rightarrow> v | None \<Rightarrow> 0)
           in if h1 = 45 \<and> h2 = 45 \<and> month_ok \<and> day_ok \<and> 1 \<le> year \<and> day \<le> days_in_month year month
              then Inr (year, month, day)
              else Inl StrptimeError)
      | _ \<Rightarrow> Inl StrptimeError)"
| "strptime E _ = Inl StrptimeError"

text \<open>
  \<open>dt + timedelta(days=1)\<close>: the next day of the proleptic Gregorian calendar; beyond
  9999-12-31 the library raises \<open>OverflowError\<close>.
\<close>

definition add_one_day :: "nat \<times> nat \<times> nat \<Rightarrow> error + (nat \<times> nat \<times> nat)" where
  "add_one_day dt =
     (case dt of (y, m, d) \<Rightarrow>
        if d < days_in_month y m then Inr (y, m, d + 1)
        else if m < 12 then Inr (y, m + 1, 1)
        else if y < 9999 then Inr (y + 1, 1, 1)
        else Inl OverflowError)"

definition pad2 :: "nat \<Rightarrow> ustr" where
  "pad2 n = [48 + n div 10 mod 10, 48 + n mod 10]"

definition pad4 :: "nat \<Rightarrow> ustr" where
  "pad4 n = [48 + n div 1000 mod 10, 48 + n div 100 mod 10, 48 + n div 10 mod 10, 48 + n mod 10]"

text \<open>
  \<open>strftime("%Y%m%d")\<close>.  The library hands \<open>%Y\<close> to the C library, and glibc
  prints the year as a plain decimal number, without leading zeros: a year below 1000
  has fewer than four digits (the day after 0001-01-01 is printed as \<open>10102\<close>).
  Month and day always have two digits.
\<close>

definition strftime_Ymd :: "nat \<times> nat \<times> nat \<Rightarrow> ustr" where
  "strftime_Ymd dt = (case dt of (y, m, d) \<Rightarrow> digits y @ pad2 m @ pad2 d)"


section \<open>Event records\<close>

text \<open>
  The input is the dictionary that \<open>json.load\<close> returns.  The model gives every key
  the type the program uses it at: strings for the text fields, integers for the two
  minute counts, a list of strings for the categories.  For a key read with
  \<open>d.get(k)\<close> a missing key and a \<open>null\<close> are both Python's \<open>None\<close> and the field is
  an \<open>option\<close>.  For a key read with \<open>d.get(k, default)\<close> the two differ (a missing
  key gives the default, a \<open>null\<close> gives \<open>None\<close>) and the field is a \<open>field\<close>.
\<close>

datatype 'a field = Absent | Null | Value 'a

definition get_or :: "'a field \<Rightarrow> 'a option \<Rightarrow> 'a option" where
  "get_or f dflt = (case f of Absent \<Rightarrow> dflt | Null \<Rightarrow> None | Value v \<Rightarrow> Some v)"

definition get :: "'a field \<Rightarrow> 'a option" where
  "get f = get_or f None"

definition present :: "'a option \<Rightarrow> 'a field" where
  "present v = (case v of None \<Rightarrow> Null | Some x \<Rightarrow> Value x)"

record event =
  date :: "ustr option"
  summary :: "ustr option"
  time :: "ustr option"
  timezone :: "ustr field"
  reminder_minutes :: "int field"
  duration_minutes :: "int field"
  description :: "ustr option"
  location :: "ustr option"
  url :: "ustr option"
  categories :: "ustr list option"
  status :: "ustr option"
  transp :: "ustr option"
  rrule :: "ustr option"

record defaults =
  d_timezone :: "ustr field"
  d_reminder_minutes :: "int field"
  d_duration_minutes :: "int field"

record document =
  events :: "event list option"
  root_timezone :: "ustr option"
  root_reminder_minutes :: "int field"
  root_duration_minutes :: "int field"

text \<open>Python's truth value of an optional string or list, and of an optional integer.\<close>

definition truthy :: "'a list option \<Rightarrow> bool" where
  "truthy v = (case v of None \<Rightarrow> False | Some s \<Rightarrow> s \<noteq> [])"

definition truthy_int :: "int option \<Rightarrow> bool" where
  "truthy_int v = (case v of None \<Rightarrow> False | Some n \<Rightarrow> n \<noteq> 0)"

section \<open>Building one event\<close>

text \<open>Lines 107 to 114 of the source: the token of a duration.\<close>

definition dur_parts :: "int \<Rightarrow> ustr" where
  "dur_parts duration =
     (let hours = duration div 60; mins = duration mod 60;
          parts = u ''PT'';
          parts = (if hours \<noteq> 0 then parts @ str_int hours @ u ''H'' else parts);
          parts = (if mins \<noteq> 0 then parts @ str_int mins @ u ''M'' else parts);
          parts = (if hours = 0 \<and> mins = 0 then parts @ u ''0M'' else parts)
      in parts)"

text \<open>Lines 152 to 159 of the source: the token of an alarm trigger.\<close>

definition trigger_parts :: "int \<Rightarrow> ustr" where
  "trigger_parts reminder =
     (let hours = reminder div 60; mins = reminder mod 60;
          parts = u ''-PT'';
          parts = (if hours \<noteq> 0 then parts @ str_int hours @ u ''H'' else parts);
          parts = (if mins \<noteq> 0 then parts @ str_int mins @ u ''M'' else parts);
          parts = (if hours = 0 \<and> mins = 0 then parts @ u ''0M'' else parts)
      in parts)"

text \<open>
  Lines 92 to 115: the start of the event and its end or duration.  \<open>is_allday\<close> is
  \<open>time is None\<close>; \<open>not tz\<close> holds for \<open>None\<close> and for the empty string, \<open>if duration\<close>
  fails for \<open>None\<close> and for 0.
\<close>

definition temporal_lines ::
  "env \<Rightarrow> ustr \<Rightarrow> ustr \<Rightarrow> ustr option \<Rightarrow> ustr option \<Rightarrow> int option \<Rightarrow> error + ustr list" where
  "temporal_lines E date_str summary_str time_opt tz duration =
     (case time_opt of
        None \<Rightarrow>
          (case strptime E date_str of
             Inl e \<Rightarrow> Inl e
           | Inr dt_date \<Rightarrow>
               (case add_one_day dt_date of
                  Inl e \<Rightarrow> Inl e
                | Inr next_day \<Rightarrow>
                    Inr [u ''DTSTART;VALUE=DATE:'' @ format_date date_str,
                         u ''DTEND;VALUE=DATE:'' @ strftime_Ymd next_day]))
      | Some time_str \<Rightarrow>
          if \<not> truthy tz then Inl (NoTimezone summary_str)
          else
            Inr ([u ''DTSTART;TZID='' @ the tz @ u '':'' @ format_datetime date_str time_str] @
                 (if truthy_int duration then [u ''DURATION:'' @ dur_parts (the duration)] else [])))"

text \<open>Lines 119 to 133: the optional text properties.\<close>

definition text_lines :: "event \<Rightarrow> ustr list" where
  "text_lines ev =
     (if truthy (description ev) then [u ''DESCRIPTION:'' @ escape_text (the (description ev))] else []) @
     (if truthy (location ev) then [u ''LOCATION:'' @ escape_text (the (location ev))] else []) @
     (if truthy (url ev) then [u ''URL:'' @ the (url ev)] else []) @
     (if truthy (categories ev) then [u ''CATEGORIES:'' @ join (u '','') (the (categories ev))] else [])"

text \<open>Lines 151 to 166: the alarm block.\<close>

definition alarm_lines :: "int option \<Rightarrow> ustr list" where
  "alarm_lines reminder =
     (if truthy_int reminder \<and> the reminder > 0 then
        [u ''BEGIN:VALARM'',
         u ''TRIGGER:'' @ trigger_parts (the reminder),
         u ''ACTION:DISPLAY'',
         u ''DESCRIPTION:Reminder'',
         u ''END:VALARM'']
      else [])"

definition status_values :: "ustr list" where
  "status_values = [u ''TENTATIVE'', u ''CONFIRMED'', u ''CANCELLED'']"

definition transp_values :: "ustr list" where
  "transp_values = [u ''OPAQUE'', u ''TRANSPARENT'']"

text \<open>
  \<open>vevent_lines\<close> is the list \<open>lines\<close> of \<open>build_vevent\<close> when it reaches its last
  statement, or the exception raised on the way; \<open>n\<close> counts the calls, for the
  identifier and the time stamp.  \<open>the\<close> is only applied to a value that the test
  before it has found not to be \<open>None\<close>.
\<close>

text \<open>Lines 79 to 81: a value of the event wins over the default of the document.\<close>

definition tz_of :: "event \<Rightarrow> defaults \<Rightarrow> ustr option" where
  "tz_of ev dflt = get_or (timezone ev) (get (d_timezone dflt))"

definition reminder_of :: "event \<Rightarrow> defaults \<Rightarrow> int option" where
  "reminder_of ev dflt = get_or (reminder_minutes ev) (get_or (d_reminder_minutes dflt) (Some 0))"

definition duration_of :: "event \<Rightarrow> defaults \<Rightarrow> int option" where
  "duration_of ev dflt = get_or (duration_minutes ev) (get_or (d_duration_minutes dflt) (Some 60))"

definition vevent_lines :: "env \<Rightarrow> nat \<Rightarrow> event \<Rightarrow> defaults \<Rightarrow> error + ustr list" where
  "vevent_lines E n ev dflt =
     (if \<not> truthy (date ev) \<or> \<not> truthy (summary ev) then Inl MissingRequired
      else if \<not> match_date E (the (date ev)) then Inl (InvalidDate (the (date ev)))
      else if truthy (time ev) \<and> \<not> match_time E (the (time ev)) then Inl (InvalidTime (the (time ev)))
      else
        (let tz = tz_of ev dflt;
             reminder = reminder_of ev dflt;
             duration = duration_of ev dflt;
             dtstamp = utcnow E n;
             uid = generate_uid E n (the (summary ev)) (the (date ev));
             lines = [u ''BEGIN:VEVENT'', u ''UID:'' @ uid, u ''DTSTAMP:'' @ dtstamp]
         in case temporal_lines E (the (date ev)) (the (summary ev)) (time ev) tz duration of
              Inl e \<Rightarrow> Inl e
            | Inr temporal \<Rightarrow>
                (let lines = lines @ temporal;
                     lines = lines @ [u ''SUMMARY:'' @ escape_text (the (summary ev))];
                     lines = lines @ text_lines ev
                 in if truthy (status ev) \<and> the (status ev) \<notin> set status_values
                    then Inl (InvalidStatus (the (status ev)))
                    else
                      (let lines = lines @ (if truthy (status ev) then [u ''STATUS:'' @ the (status ev)] else [])
                       in if truthy (transp ev) \<and> the (transp ev) \<notin> set transp_values
                          then Inl (InvalidTransp (the (transp ev)))
                          else
                            (let lines = lines @ (if truthy (transp ev) then [u ''TRANSP:'' @ the (transp ev)] else []);
                                 lines = lines @ (if truthy (rrule ev) then [u ''RRULE:'' @ the (rrule ev)] else []);
                                 lines = lines @ alarm_lines reminder;
                                 lines = lines @ [u ''END:VEVENT'']
                             in Inr lines)))))"

definition build_vevent :: "env \<Rightarrow> nat \<Rightarrow> event \<Rightarrow> defaults \<Rightarrow> error + ustr" where
  "build_vevent E n ev dflt =
     (case vevent_lines E n ev dflt of Inl e \<Rightarrow> Inl e | Inr lines \<Rightarrow> Inr (join CRLF lines))"

section \<open>Building the document\<close>

text \<open>The loop of \<open>generate_ics\<close> over the events: \<open>lines\<close> grows by one built event at a time.\<close>

fun events_loop :: "env \<Rightarrow> nat \<Rightarrow> event list \<Rightarrow> defaults \<Rightarrow> ustr list \<Rightarrow> error + ustr list" where
  "events_loop E n [] dflt lines = Inr lines"
| "events_loop E n (ev # rest) dflt lines =
     (case build_vevent E n ev dflt of
        Inl e \<Rightarrow> Inl e
      | Inr block \<Rightarrow> events_loop E (Suc n) rest dflt (lines @ [block]))"

definition calendar_header :: "ustr list" where
  "calendar_header =
     [u ''BEGIN:VCALENDAR'', u ''VERSION:2.0'', u ''PRODID:-//Claude//EN'',
      u ''CALSCALE:GREGORIAN'', u ''METHOD:PUBLISH'']"

definition make_defaults :: "document \<Rightarrow> defaults" where
  "make_defaults data =
     \<lparr>d_timezone = present (root_timezone data),
      d_reminder_minutes = present (get_or (root_reminder_minutes data) (Some 0)),
      d_duration_minutes = present (get_or (root_duration_minutes data) (Some 60))\<rparr>"

definition generate_ics :: "env \<Rightarrow> document \<Rightarrow> error + ustr" where
  "generate_ics E data =
     (if \<not> truthy (events data) then Inl EmptyEvents
      else
        (case events_loop E 0 (the (events data)) (make_defaults data) calendar_header of
           Inl e \<Rightarrow> Inl e
         | Inr lines \<Rightarrow> fold_content (join CRLF (lines @ [u ''END:VCALENDAR'']))))"

section \<open>Concrete inputs\<close>

text \<open>
  A runtime environment for the worked examples: no decimal digits, spaces or word
  characters beyond ASCII, ASCII lower-casing, a fixed UUID and a fixed clock.
\<close>

definition example_env :: env where
  "example_env =
     \<lparr>nd_value = (\<lambda>c. None),
      uni_space = (\<lambda>c. False),
      uni_word = (\<lambda>c. False),
      str_lower = map (\<lambda>c. if 65 \<le> c \<and> c \<le> 90 then c + 32 else c),
      uuid4_hex = (\<lambda>n. u ''0123456789abcdef0123456789abcdef''),
      utcnow = (\<lambda>n. u ''20240101T120000Z'')\<rparr>"

definition example_event :: event where
  "example_event =
     \<lparr>date = Some (u ''2024-03-10''), summary = Some (u ''Launch''), time = None,
      timezone = Absent, reminder_minutes = Absent, duration_minutes = Absent,
      description = None, location = None, url = None, categories = None,
      status = None, transp = None, rrule = None\<rparr>"

definition example_defaults :: defaults where
  "example_defaults =
     \<lparr>d_timezone = Null, d_reminder_minutes = Value 0, d_duration_minutes = Value 60\<rparr>"

definition sync_event :: event where
  "sync_event =
     \<lparr>date = Some (u ''2024-06-01''), summary = Some (u ''Sync''), time = Some (u ''09:00''),
      timezone = Value (u ''UTC''), reminder_minutes = Value 15, duration_minutes = Value 30,
      description = None, location = None, url = None, categories = None,
      status = None, transp = None, rrule = None\<rparr>"

definition impossible_date_event :: event where
  "impossible_date_event = example_event\<lparr>date := Some (u ''2024-02-30'')\<rparr>"

definition last_day_event :: event where
  "last_day_event = example_event\<lparr>date := Some (u ''9999-12-31'')\<rparr>"

definition first_day_event :: event where
  "first_day_event = example_event\<lparr>date := Some (u ''0001-01-01'')\<rparr>"

definition leap_day_event :: event where
  "leap_day_event = example_event\<lparr>date := Some (u ''2024-02-29'')\<rparr>"

definition utc_defaults :: defaults where
  "utc_defaults =
     \<lparr>d_timezone = Value (u ''UTC''), d_reminder_minutes = Value 0, d_duration_minutes = Value 60\<rparr>"

definition maybe_event :: event where
  "maybe_event = example_event\<lparr>status := Some (u ''MAYBE'')\<rparr>"

definition failing_document :: document where
  "failing_document =
     \<lparr>events = Some [example_event, maybe_event, impossible_date_event],
      root_timezone = None, root_reminder_minutes = Absent, root_duration_minutes = Absent\<rparr>"

definition two_event_document :: document where
  "two_event_document =
     \<lparr>events = Some [example_event, sync_event],
      root_timezone = None, root_reminder_minutes = Absent, root_duration_minutes = Absent\<rparr>"

definition injected_event :: event where
  "injected_event =
     example_event\<lparr>url := Some (u ''x'' @ CRLF @ u ''END:VEVENT'' @ CRLF @ u ''BEGIN:VEVENT'')\<rparr>"

definition injected_document :: document where
  "injected_document =
     \<lparr>events = Some [injected_event],
      root_timezone = None, root_reminder_minutes = Absent, root_duration_minutes = Absent\<rparr>"

text \<open>The lines expected for \<open>example_event\<close> and for \<open>sync_event\<close>.\<close>

definition launch_lines :: "ustr list" where
  "launch_lines =
     [u ''BEGIN:VEVENT'', u ''UID:launch-2024-03-10-01234567@claude'', u ''DTSTAMP:20240101T120000Z'',
      u ''DTSTART;VALUE=DATE:20240310'', u ''DTEND;VALUE=DATE:20240311'', u ''SUMMARY:Launch'',
      u ''END:VEVENT'']"

definition sync_lines :: "ustr list" where
  "sync_lines =
     [u ''BEGIN:VEVENT'', u ''UID:sync-2024-06-01-01234567@claude'', u ''DTSTAMP:20240101T120000Z'',
      u ''DTSTART;TZID=UTC:20240601T090000'', u ''DURATION:PT30M'', u ''SUMMARY:Sync'',
      u ''BEGIN:VALARM'', u ''TRIGGER:-PT15M'', u ''ACTION:DISPLAY'', u ''DESCRIPTION:Reminder'',
      u ''END:VALARM'', u ''END:VEVENT'']"

section \<open>Auxiliary notions for the proofs\<close>

text \<open>The byte limit of a chunk: 75 for the first one, 74 for a continuation.\<close>

definition lim :: "bool \<Rightarrow> nat" where
  "lim first = (if first then 75 else 74)"

text \<open>
  A list of chunks is well formed when every chunk fits its limit and no chunk could
  have taken the first character of its successor.
\<close>

fun chunks_ok :: "bool \<Rightarrow> ustr list \<Rightarrow> bool" where
  "chunks_ok first [] = True"
| "chunks_ok first [x] = encoded_within (lim first) x"
| "chunks_ok first (x # y # ys) =
     (encoded_within (lim first) x \<and> y \<noteq> [] \<and> \<not> encoded_within (lim first) (x @ [hd y])
      \<and> chunks_ok False (y # ys))"

text \<open>
  \<open>adjacent a b s\<close>: the character \<open>a\<close> is immediately followed by \<open>b\<close> somewhere in
  \<open>s\<close>.  \<open>esc k c\<close> is what stands for the character \<open>c\<close> after escaping and
  \<open>k\<close> of the four reverse substitutions.
\<close>

fun adjacent :: "nat \<Rightarrow> nat \<Rightarrow> ustr \<Rightarrow> bool" where
  "adjacent a b (x # y # r) = (x = a \<and> y = b \<or> adjacent a b (y # r))"
| "adjacent a b _ = False"

definition esc :: "nat \<Rightarrow> nat \<Rightarrow> ustr" where
  "esc k c =
     (if c = BSL then [BSL, BSL]
      else if c = SEMI \<and> k < 3 then [BSL, SEMI]
      else if c = COMMA \<and> k < 2 then [BSL, COMMA]
      else if c = LF \<and> k < 1 then [BSL, LOWER_N]
      else [c])"

text \<open>
  The date written as year, month and day with hyphens, and the name of a property
  line: what stands before its first colon or semicolon.
\<close>

definition iso_date :: "nat \<Rightarrow> nat \<Rightarrow> nat \<Rightarrow> ustr" where
  "iso_date y m d = pad4 y @ u ''-'' @ pad2 m @ u ''-'' @ pad2 d"

definition prop_name :: "ustr \<Rightarrow> ustr" where
  "prop_name l = takeWhile (\<lambda>c. c \<noteq> 58 \<and> c \<noteq> 59) l"

text \<open>The three optional lines that follow the text properties.\<close>

definition enum_lines :: "event \<Rightarrow> ustr list" where
  "enum_lines ev =
     (if truthy (status ev) then [u ''STATUS:'' @ the (status ev)] else []) @
     (if truthy (transp ev) then [u ''TRANSP:'' @ the (transp ev)] else []) @
     (if truthy (rrule ev) then [u ''RRULE:'' @ the (rrule ev)] else [])"

text \<open>
  The number of a day, counting 0001-01-01 as day 1 (the library's \<open>toordinal\<close>): the
  next calendar day is the day whose number is one more.
\<close>

definition days_before_year :: "nat \<Rightarrow> nat" where
  "days_before_year y = 365 * (y - 1) + (y - 1) div 4 - (y - 1) div 100 + (y - 1) div 400"

definition days_before_month :: "nat \<Rightarrow> nat \<Rightarrow> nat" where
  "days_before_month y m = sum_list (map (days_in_month y) [1..<m])"

definition day_number :: "nat \<Rightarrow> nat \<Rightarrow> nat \<Rightarrow> nat" where
  "day_number y m d = days_before_year y + days_before_month y m + d"

definition valid_date :: "nat \<Rightarrow> nat \<Rightarrow> nat \<Rightarrow> bool" where
  "valid_date y m d \<longleftrightarrow> 1 \<le> y \<and> y \<le> 9999 \<and> 1 \<le> m \<and> m \<le> 12 \<and> 1 \<le> d \<and> d \<le> days_in_month y m"

text \<open>
  The logical lines of a generated text, as a reader obtains them: unfold, then split at
  the line terminators.  \<open>count_vevents\<close> counts the lines that open an event.
\<close>

definition logical_lines :: "ustr \<Rightarrow> ustr list" where
  "logical_lines out = split CRLF (unfold_text out)"

definition count_vevents :: "ustr \<Rightarrow> nat" where
  "count_vevents out = length (filter (\<lambda>l. l = u ''BEGIN:VEVENT'') (logical_lines out))"

definition property_order :: "ustr list" where
  "property_order =
     [u ''UID'', u ''DTSTAMP'', u ''DTSTART'', u ''DTEND'', u ''DURATION'', u ''SUMMARY'',
      u ''DESCRIPTION'', u ''LOCATION'', u ''URL'', u ''CATEGORIES'', u ''STATUS'', u ''TRANSP'',
      u ''RRULE'']"

definition alarm_names :: "ustr list" where
  "alarm_names = [u ''BEGIN'', u ''TRIGGER'', u ''ACTION'', u ''DESCRIPTION'', u ''END'']"

text \<open>A line that does not start with a space and neither opens nor closes an event.\<close>

definition plain :: "ustr \<Rightarrow> bool" where
  "plain l \<longleftrightarrow> \<not> prefix [SP] l \<and> l \<noteq> u ''BEGIN:VEVENT'' \<and> l \<noteq> u ''END:VEVENT''"

section \<open>Properties of UTF-8 and of line folding\<close>


lemma utf8_char_length: "utf8_char c = Inr bs \<Longrightarrow> 1 \<le> length bs \<and> length bs \<le> 4"
  by (auto simp: utf8_char_def split: if_splits)

lemma split3: "(c::nat) div 4096 * 4096 + (c div 64) mod 64 * 64 + c mod 64 = c"
proof -
  define q where "q = c div 64"
  define h where "h = q div 64"
  define l where "l = q mod 64"
  have q: "c div 4096 = h" unfolding h_def q_def by (simp add: div_mult2_eq)
  have hl: "q = h * 64 + l" unfolding h_def l_def by simp
  have "c = q * 64 + c mod 64" unfolding q_def by simp
  also have "\<dots> = h * 4096 + l * 64 + c mod 64" unfolding hl by (simp add: algebra_simps)
  finally show ?thesis unfolding q by (simp add: l_def q_def)
qed

lemma split4:
  "(c::nat) div 262144 * 262144 + (c div 4096) mod 64 * 4096 + (c div 64) mod 64 * 64 + c mod 64 = c"
proof -
  define q where "q = c div 64"
  have q1: "c div 4096 = q div 64" unfolding q_def by (simp add: div_mult2_eq)
  have q2: "c div 262144 = q div 4096" unfolding q_def by (simp add: div_mult2_eq)
  define a where "a = q div 4096"
  define b where "b = (q div 64) mod 64"
  define d where "d = q mod 64"
  have s3: "q = a * 4096 + b * 64 + d" unfolding a_def b_def d_def by (simp only: split3)
  have "c = q * 64 + c mod 64" unfolding q_def by simp
  also have "\<dots> = a * 262144 + b * 4096 + d * 64 + c mod 64" unfolding s3 by (simp add: algebra_simps)
  finally show ?thesis unfolding q1 q2 by (simp add: a_def b_def d_def q_def)
qed

lemma utf8_decode_char:
  assumes "utf8_char c = Inr bs"
  shows "utf8_decode (bs @ r) = dcons c (utf8_decode r)"
proof -
  consider "c < 0x80" | "0x80 \<le> c" "c < 0x800" | "0x800 \<le> c" "c < 0x10000" "\<not> (0xD800 \<le> c \<and> c \<le> 0xDFFF)"
    | "0x10000 \<le> c" "c < 0x110000"
    using assms by (auto simp: utf8_char_def split: if_splits)
  then show ?thesis
  proof cases
    case 1
    then show ?thesis using assms by (auto simp: utf8_char_def)
  next
    case 2
    then have bs: "bs = [0xC0 + c div 64, 0x80 + c mod 64]"
      using assms by (auto simp: utf8_char_def)
    have "2 \<le> c div 64" "c div 64 < 32" using 2 by arith+
    moreover have "c div 64 * 64 + c mod 64 = c" by simp
    moreover have "c mod 64 \<le> 63" by arith
    ultimately show ?thesis unfolding bs by (simp add: cont_def)
  next
    case 3
    then have bs: "bs = [0xE0 + c div 4096, 0x80 + (c div 64) mod 64, 0x80 + c mod 64]"
      using assms by (auto simp: utf8_char_def)
    have a: "c div 4096 < 16" using 3 by arith
    have e: "c div 4096 * 4096 + (c div 64) mod 64 * 64 + c mod 64 = c" by (rule split3)
    have m: "c mod 64 \<le> 63" "(c div 64) mod 64 \<le> 63"
      by (simp_all add: less_Suc_eq_le [symmetric])
    show ?thesis unfolding bs using a e m 3 by (simp add: cont_def Let_def)
  next
    case 4
    then have bs: "bs = [0xF0 + c div 262144, 0x80 + (c div 4096) mod 64,
             0x80 + (c div 64) mod 64, 0x80 + c mod 64]"
      using assms by (auto simp: utf8_char_def)
    have a: "c div 262144 < 5" using 4 by arith
    have e: "c div 262144 * 262144 + (c div 4096) mod 64 * 4096 + (c div 64) mod 64 * 64 + c mod 64 = c" by (rule split4)
    have m: "c mod 64 \<le> 63" "(c div 64) mod 64 \<le> 63" "(c div 4096) mod 64 \<le> 63"
      by (simp_all add: less_Suc_eq_le [symmetric])
    show ?thesis unfolding bs using a e m 4 by (simp add: cont_def Let_def)
  qed
qed


lemma utf8_encode_append:
  "utf8_encode (a @ b) =
     (case utf8_encode a of Inl e \<Rightarrow> Inl e
      | Inr x \<Rightarrow> (case utf8_encode b of Inl e \<Rightarrow> Inl e | Inr y \<Rightarrow> Inr (x @ y)))"
  by (induction a) (auto split: sum.splits)

lemma utf8_decode_encode: "utf8_encode s = Inr bs \<Longrightarrow> utf8_decode bs = Inr s"
proof (induction s arbitrary: bs)
  case Nil
  then show ?case by simp
next
  case (Cons c cs)
  then obtain x y where x: "utf8_char c = Inr x" and y: "utf8_encode cs = Inr y" and bs: "bs = x @ y"
    by (auto split: sum.splits)
  show ?case unfolding bs using utf8_decode_char [OF x, of y] Cons.IH [OF y]
    by (simp add: dcons_def)
qed


lemma utf8_encode_single_length:
  "utf8_encode [c] = Inr x \<Longrightarrow> 1 \<le> length x \<and> length x \<le> 4"
  using utf8_char_length [of c] by (auto split: sum.splits)

lemma utf8_encode_Cons_Inr:
  "utf8_encode (c # cs) = Inr b \<Longrightarrow> \<exists>x y. utf8_encode [c] = Inr x \<and> utf8_encode cs = Inr y \<and> b = x @ y"
  by (auto split: sum.splits)

lemma fold_loop_spec:
  assumes "utf8_encode cs = Inr eb" and "utf8_encode cur = Inr cb"
    and "length cb \<le> lim (result = [])"
  shows "\<exists>ch lb. ch \<noteq> [] \<and> fold_loop cs result cb = Inr (result @ butlast ch, lb)
           \<and> utf8_encode (last ch) = Inr lb \<and> concat ch = cur @ cs
           \<and> prefix cur (hd ch) \<and> chunks_ok (result = []) ch"
  using assms
proof (induction cs arbitrary: result cur cb eb)
  case Nil
  then show ?case
    by (intro exI [of _ "[cur]"] exI [of _ cb]) (simp add: encoded_within_def)
next
  case (Cons c cs)
  from Cons.prems(1) obtain x y where x: "utf8_encode [c] = Inr x" and y: "utf8_encode cs = Inr y"
    using utf8_encode_Cons_Inr by blast
  have xl: "1 \<le> length x" "length x \<le> 4" using utf8_encode_single_length [OF x] by auto
  have snoc: "utf8_encode (cur @ [c]) = Inr (cb @ x)"
    using Cons.prems(2) x by (simp add: utf8_encode_append)
  show ?case
  proof (cases "length cb + length x > lim (result = [])")
    case True
    have dec: "utf8_decode cb = Inr cur" using Cons.prems(2) by (rule utf8_decode_encode)
    have "length x \<le> lim (result @ [cur] = [])" using xl by (simp add: lim_def)
    from Cons.IH [OF y x this] obtain ch lb where
      ch: "ch \<noteq> []" "fold_loop cs (result @ [cur]) x = Inr ((result @ [cur]) @ butlast ch, lb)"
        "utf8_encode (last ch) = Inr lb" "concat ch = [c] @ cs" "prefix [c] (hd ch)"
        "chunks_ok (result @ [cur] = []) ch"
      by blast
    obtain z zs where z: "ch = z # zs" using ch(1) by (cases ch) auto
    have hz: "z \<noteq> []" "hd z = c" using ch(5) z by (auto simp: prefix_def)
    have "chunks_ok (result = []) (cur # ch)"
      using ch(6) True Cons.prems(2,3) snoc hz unfolding z
      by (simp add: encoded_within_def)
    moreover have "fold_loop (c # cs) result cb = Inr (result @ butlast (cur # ch), lb)"
      using x True dec ch(1,2) by (simp add: lim_def)
    ultimately show ?thesis
      using ch(3,4) by (intro exI [of _ "cur # ch"] exI [of _ lb]) (simp add: ch(1))
  next
    case False
    then have le: "length (cb @ x) \<le> lim (result = [])" by simp
    from Cons.IH [OF y snoc le] obtain ch lb where
      ch: "ch \<noteq> []" "fold_loop cs result (cb @ x) = Inr (result @ butlast ch, lb)"
        "utf8_encode (last ch) = Inr lb" "concat ch = (cur @ [c]) @ cs" "prefix (cur @ [c]) (hd ch)"
        "chunks_ok (result = []) ch"
      by blast
    have "fold_loop (c # cs) result cb = Inr (result @ butlast ch, lb)"
      using x False ch(2) by (simp add: lim_def)
    moreover have "prefix cur (hd ch)" using ch(5) by (rule append_prefixD)
    ultimately show ?thesis using ch by (intro exI [of _ ch] exI [of _ lb]) simp
  qed
qed


lemma chunks_ok_hd: "chunks_ok first ch \<Longrightarrow> ch \<noteq> [] \<Longrightarrow> encoded_within (lim first) (hd ch)"
  by (induction first ch rule: chunks_ok.induct) auto

lemma chunks_ok_tl: "chunks_ok first ch \<Longrightarrow> c \<in> set (tl ch) \<Longrightarrow> encoded_within 74 c"
  by (induction first ch rule: chunks_ok.induct) (auto simp: lim_def dest: chunks_ok_hd)

lemma chunks_ok_step:
  "chunks_ok first ch \<Longrightarrow> Suc i < length ch \<Longrightarrow>
     ch ! Suc i \<noteq> [] \<and> \<not> encoded_within (if i = 0 then lim first else 74) (ch ! i @ [hd (ch ! Suc i)])"
proof (induction first ch arbitrary: i rule: chunks_ok.induct)
  case (3 first x y ys)
  show ?case
  proof (cases i)
    case 0
    then show ?thesis using 3 by simp
  next
    case (Suc j)
    then have "Suc j < length (y # ys)" using 3 by simp
    from "3.IH" [OF _ this] 3 have "(y # ys) ! Suc j \<noteq> [] \<and>
       \<not> encoded_within (if j = 0 then lim False else 74) ((y # ys) ! j @ [hd ((y # ys) ! Suc j)])"
      by simp
    then show ?thesis using Suc by (auto simp: lim_def split: if_splits)
  qed
qed auto

lemma chunks_ok_last: "chunks_ok first ch \<Longrightarrow> 2 \<le> length ch \<Longrightarrow> last ch \<noteq> []"
  by (induction first ch rule: chunks_ok.induct) (auto split: if_splits simp: Suc_le_eq)

lemma utf8_encode_Nil: "utf8_encode s = Inr [] \<Longrightarrow> s = []"
  by (cases s) (auto split: sum.splits dest: utf8_char_length)

lemma fold_line_short:
  "utf8_encode line = Inr encoded \<Longrightarrow> length encoded \<le> 75 \<Longrightarrow> fold_line line = Inr line"
  by (simp add: fold_line_def)

lemma fold_line_long:
  assumes enc: "utf8_encode line = Inr encoded" and long: "75 < length encoded"
  shows "\<exists>chunks. fold_line line = Inr (join (CRLF @ [SP]) chunks) \<and> concat chunks = line
           \<and> 2 \<le> length chunks \<and> chunks_ok True chunks"
proof -
  have "utf8_encode [] = Inr []" "length ([]::nat list) \<le> lim (([]::ustr list) = [])"
    by (simp_all add: lim_def)
  from fold_loop_spec [OF enc this] obtain ch lb where
    ch: "ch \<noteq> []" "fold_loop line [] [] = Inr (butlast ch, lb)" "utf8_encode (last ch) = Inr lb"
      "concat ch = line" "chunks_ok True ch"
    by auto
  have two: "2 \<le> length ch"
  proof (rule ccontr)
    assume "\<not> 2 \<le> length ch"
    then have "length ch < 2" by simp
    then obtain x where "ch = [x]" using ch(1) by (cases ch) auto
    then show False using ch(4,5) enc long by (simp add: encoded_within_def lim_def)
  qed
  have "last ch \<noteq> []" using ch(5) two by (rule chunks_ok_last)
  then have lb: "lb \<noteq> []" using ch(3) utf8_encode_Nil by blast
  have dec: "utf8_decode lb = Inr (last ch)" using ch(3) by (rule utf8_decode_encode)
  have "fold_line line = Inr (join (CRLF @ [SP]) ch)"
    using enc long ch(1,2) lb dec by (simp add: fold_line_def)
  then show ?thesis using ch(4,5) two by blast
qed

text \<open>
  Claim C1.  A line whose UTF-8 encoding has at most 75 bytes is returned unchanged.
  A longer line is returned as chunks joined by CR LF and one space: the chunks are
  whole characters and together make up the line, the first one encodes to at most 75
  bytes and every later one to at most 74, and each chunk is followed by a character
  that did not fit its limit any more and starts the next chunk.
\<close>

theorem fold_line_chunks:
  assumes "utf8_encode line = Inr encoded"
  shows "(length encoded \<le> 75 \<longrightarrow> fold_line line = Inr line) \<and>
         (75 < length encoded \<longrightarrow>
           (\<exists>chunks. fold_line line = Inr (join (CRLF @ [SP]) chunks)
              \<and> concat chunks = line \<and> 2 \<le> length chunks
              \<and> encoded_within 75 (hd chunks)
              \<and> (\<forall>c \<in> set (tl chunks). encoded_within 74 c)
              \<and> (\<forall>i. Suc i < length chunks \<longrightarrow>
                    chunks ! Suc i \<noteq> [] \<and>
                    \<not> encoded_within (if i = 0 then 75 else 74)
                         (chunks ! i @ [hd (chunks ! Suc i)]))))"
proof (intro conjI impI)
  assume "length encoded \<le> 75"
  with assms show "fold_line line = Inr line" by (rule fold_line_short)
next
  assume "75 < length encoded"
  from fold_line_long [OF assms this] obtain chunks where
    c: "fold_line line = Inr (join (CRLF @ [SP]) chunks)" "concat chunks = line"
      "2 \<le> length chunks" "chunks_ok True chunks"
    by blast
  have ne: "chunks \<noteq> []" using c(3) by auto
  have "encoded_within 75 (hd chunks)" using chunks_ok_hd [OF c(4) ne] by (simp add: lim_def)
  moreover have "\<forall>x \<in> set (tl chunks). encoded_within 74 x" using chunks_ok_tl [OF c(4)] by blast
  moreover have "\<forall>i. Suc i < length chunks \<longrightarrow>
                    chunks ! Suc i \<noteq> [] \<and>
                    \<not> encoded_within (if i = 0 then 75 else 74)
                         (chunks ! i @ [hd (chunks ! Suc i)])"
  proof (intro allI impI)
    fix i assume "Suc i < length chunks"
    from chunks_ok_step [OF c(4) this]
    show "chunks ! Suc i \<noteq> [] \<and>
                    \<not> encoded_within (if i = 0 then 75 else 74)
                         (chunks ! i @ [hd (chunks ! Suc i)])"
      by (cases "i = 0") (simp_all add: lim_def)
  qed
  ultimately show "\<exists>chunks. fold_line line = Inr (join (CRLF @ [SP]) chunks)
              \<and> concat chunks = line \<and> 2 \<le> length chunks
              \<and> encoded_within 75 (hd chunks)
              \<and> (\<forall>c \<in> set (tl chunks). encoded_within 74 c)
              \<and> (\<forall>i. Suc i < length chunks \<longrightarrow>
                    chunks ! Suc i \<noteq> [] \<and>
                    \<not> encoded_within (if i = 0 then 75 else 74)
                         (chunks ! i @ [hd (chunks ! Suc i)]))"
    using c(1,2,3) by blast
qed

theorem fold_line_chunks_witness:
  "utf8_encode (replicate 40 233) = Inr (concat (replicate 40 [195, 169])) \<and>
   (\<exists>chunks. fold_line (replicate 40 233) = Inr (join (CRLF @ [SP]) chunks)
      \<and> concat chunks = replicate 40 233 \<and> 2 \<le> length chunks
      \<and> encoded_within 75 (hd chunks)
      \<and> (\<forall>c \<in> set (tl chunks). encoded_within 74 c)
      \<and> (\<forall>i. Suc i < length chunks \<longrightarrow>
            chunks ! Suc i \<noteq> [] \<and>
            \<not> encoded_within (if i = 0 then 75 else 74)
                 (chunks ! i @ [hd (chunks ! Suc i)])))"
proof -
  have h: "utf8_encode (replicate 40 233) = Inr (concat (replicate 40 [195, 169]))"
    by code_simp
  have l: "75 < length (concat (replicate 40 [195, 169::nat]))"
    by code_simp
  show ?thesis
    using h mp [OF conjunct2 [OF fold_line_chunks [OF h]] l] by (rule conjI)
qed

lemma has_crlf_appendI1: "has_crlf a \<Longrightarrow> has_crlf (a @ b)"
  by (induction a rule: has_crlf.induct) auto

lemma has_crlf_appendI2: "has_crlf b \<Longrightarrow> has_crlf (a @ b)"
proof (induction a)
  case (Cons x a)
  then show ?case by (cases "a @ b") auto
qed simp

lemma has_crlf_concat: "c \<in> set ch \<Longrightarrow> has_crlf c \<Longrightarrow> has_crlf (concat ch)"
  by (induction ch) (auto intro: has_crlf_appendI1 has_crlf_appendI2)

lemma replace_sep_chunk:
  "\<not> has_crlf a \<Longrightarrow> replace (CRLF @ [SP]) [] (a @ CRLF @ [SP] @ r) = a @ replace (CRLF @ [SP]) [] r"
  by (induction a rule: has_crlf.induct) (auto simp: CRLF_def CR_def LF_def SP_def)

lemma replace_sep_none: "\<not> has_crlf a \<Longrightarrow> replace (CRLF @ [SP]) [] a = a"
  by (induction a rule: has_crlf.induct) (auto simp: CRLF_def CR_def LF_def SP_def)

lemma unfold_join:
  "\<forall>c \<in> set ch. \<not> has_crlf c \<Longrightarrow> unfold_text (join (CRLF @ [SP]) ch) = concat ch"
proof (induction "CRLF @ [SP]" ch rule: join.induct)
  case (3 x y ys)
  then show ?case
    using replace_sep_chunk [of x "join (CRLF @ [SP]) (y # ys)"] by (simp add: unfold_text_def)
qed (simp_all add: unfold_text_def replace_sep_none)

lemma fold_line_Inl: "utf8_encode line = Inl e \<Longrightarrow> fold_line line = Inl e"
  by (simp add: fold_line_def)

lemma fold_line_joined:
  assumes "fold_line line = Inr out"
  shows "\<exists>chunks. out = join (CRLF @ [SP]) chunks \<and> concat chunks = line \<and> chunks \<noteq> []"
proof -
  obtain encoded where enc: "utf8_encode line = Inr encoded"
    using assms fold_line_Inl [of line] by (cases "utf8_encode line") auto
  show ?thesis
  proof (cases "length encoded \<le> 75")
    case True
    then have "out = line" using fold_line_short [OF enc] assms by simp
    then show ?thesis by (intro exI [of _ "[line]"]) simp
  next
    case False
    then show ?thesis using fold_line_long [OF enc] assms by force
  qed
qed

text \<open>
  Claim C2.  For a logical line (a string without CR LF), removing every CR LF space
  from the output of \<open>fold_line\<close> gives the line back.  \<open>fold_line\<close> has an output
  for every line that has a UTF-8 encoding; on any other line the encoding step raises.
\<close>

theorem fold_unfold_roundtrip:
  assumes "\<not> has_crlf line"
  shows "case fold_line line of
           Inr out \<Rightarrow> unfold_text out = line
         | Inl e \<Rightarrow> utf8_encode line = Inl e"
proof (cases "fold_line line")
  case (Inl e)
  then have "utf8_encode line = Inl e"
    using fold_line_long [of line] fold_line_short [of line]
    by (cases "utf8_encode line") (auto simp: fold_line_def not_le split: if_splits)
  then show ?thesis using Inl by simp
next
  case (Inr out)
  from fold_line_joined [OF this] obtain chunks where
    c: "out = join (CRLF @ [SP]) chunks" "concat chunks = line" by blast
  have "\<forall>c \<in> set chunks. \<not> has_crlf c" using assms c(2) has_crlf_concat by blast
  then show ?thesis using Inr c by (simp add: unfold_join)
qed


theorem fold_unfold_roundtrip_witness:
  "\<not> has_crlf (replicate 50 233) \<and>
   fold_line (replicate 50 233) = Inr (replicate 37 233 @ [13, 10, 32] @ replicate 13 233) \<and>
   unfold_text (replicate 37 233 @ [13, 10, 32] @ replicate 13 233) = replicate 50 233"
proof -
  have h: "\<not> has_crlf (replicate 50 233)"
    by code_simp
  have f: "fold_line (replicate 50 233) = Inr (replicate 37 233 @ [13, 10, 32] @ replicate 13 233)"
    by code_simp
  have "unfold_text (replicate 37 233 @ [13, 10, 32] @ replicate 13 233) = replicate 50 233"
    using fold_unfold_roundtrip [OF h] by (simp only: f sum.case)
  with h f show ?thesis by (intro conjI)
qed

section \<open>Escaping\<close>

lemma replace_single:
  "replace [a] new s = concat (map (\<lambda>c. if c = a then new else [c]) s)"
  by (induction s) auto

lemma concat_map_concat_map:
  "concat (map f (concat (map g s))) = concat (map (\<lambda>c. concat (map f (g c))) s)"
  by (induction s) auto

lemma escape_text_chars: "escape_text text = concat (map (esc 0) text)"
  unfolding escape_text_def Let_def replace_single concat_map_concat_map
  by (rule arg_cong [where f = concat], rule map_cong [OF refl])
     (simp add: esc_def BSL_def SEMI_def COMMA_def LF_def LOWER_N_def)

lemma prefix_single_concat_esc:
  "prefix [x] (concat (map (esc k) t)) \<longleftrightarrow> (t \<noteq> [] \<and> prefix [x] (esc k (hd t)))"
  by (cases t) (auto simp: esc_def prefix_Cons)

lemmas esc_chars = esc_def BSL_def SEMI_def COMMA_def LF_def LOWER_N_def

lemma step1:
  "replace [BSL, LOWER_N] [LF] R = R' \<Longrightarrow> (c = BSL \<Longrightarrow> \<not> prefix [LOWER_N] R) \<Longrightarrow>
     replace [BSL, LOWER_N] [LF] (esc 0 c @ R) = esc 1 c @ R'"
  by (auto simp: esc_chars)

lemma step2:
  "replace [BSL, COMMA] [COMMA] R = R' \<Longrightarrow> \<not> prefix [COMMA] R \<Longrightarrow>
     replace [BSL, COMMA] [COMMA] (esc 1 c @ R) = esc 2 c @ R'"
  by (auto simp: esc_chars)

lemma step3:
  "replace [BSL, SEMI] [SEMI] R = R' \<Longrightarrow> \<not> prefix [SEMI] R \<Longrightarrow>
     replace [BSL, SEMI] [SEMI] (esc 2 c @ R) = esc 3 c @ R'"
  by (auto simp: esc_chars)

lemma step4:
  "replace [BSL, BSL] [BSL] R = R' \<Longrightarrow> replace [BSL, BSL] [BSL] (esc 3 c @ R) = c # R'"
  by (auto simp: esc_chars)

lemma pass1:
  "\<not> adjacent BSL LOWER_N t \<Longrightarrow>
     replace [BSL, LOWER_N] [LF] (concat (map (esc 0) t)) = concat (map (esc 1) t)"
proof (induction t)
  case Nil
  then show ?case by simp
next
  case (Cons c t)
  have nadj: "\<not> adjacent BSL LOWER_N t" using Cons.prems by (cases t) auto
  have hd: "c = BSL \<Longrightarrow> \<not> prefix [LOWER_N] (concat (map (esc 0) t))"
    using Cons.prems unfolding prefix_single_concat_esc
    by (cases t) (auto simp: esc_chars split: if_splits)
  show ?case using step1 [OF Cons.IH [OF nadj] hd] by simp
qed

lemma pass2:
  "replace [BSL, COMMA] [COMMA] (concat (map (esc 1) t)) = concat (map (esc 2) t)"
proof (induction t)
  case Nil
  then show ?case by simp
next
  case (Cons c t)
  have hd: "\<not> prefix [COMMA] (concat (map (esc 1) t))"
    unfolding prefix_single_concat_esc by (auto simp: esc_chars split: if_splits)
  show ?case using step2 [OF Cons.IH hd] by simp
qed

lemma pass3:
  "replace [BSL, SEMI] [SEMI] (concat (map (esc 2) t)) = concat (map (esc 3) t)"
proof (induction t)
  case Nil
  then show ?case by simp
next
  case (Cons c t)
  have hd: "\<not> prefix [SEMI] (concat (map (esc 2) t))"
    unfolding prefix_single_concat_esc by (auto simp: esc_chars split: if_splits)
  show ?case using step3 [OF Cons.IH hd] by simp
qed

lemma pass4:
  "replace [BSL, BSL] [BSL] (concat (map (esc 3) t)) = t"
proof (induction t)
  case Nil
  then show ?case by simp
next
  case (Cons c t)
  show ?case using step4 [OF Cons.IH] by simp
qed

text \<open>
  Claim C4, as amended.  The reverse substitutions in reverse order undo \<open>escape_text\<close>
  on every text in which no backslash is immediately followed by the letter n.
\<close>

theorem unescape_escape:
  assumes "\<not> adjacent BSL LOWER_N text"
  shows "unescape_text (escape_text text) = text"
  unfolding unescape_text_def Let_def escape_text_chars
  by (simp only: pass1 [OF assms] pass2 pass3 pass4)

theorem unescape_escape_witness:
  "\<not> adjacent BSL LOWER_N (u ''a;b,c'' @ [BSL, LF, BSL, SEMI, BSL, BSL, COMMA, LF, LOWER_N]) \<and>
   unescape_text (escape_text (u ''a;b,c'' @ [BSL, LF, BSL, SEMI, BSL, BSL, COMMA, LF, LOWER_N]))
     = u ''a;b,c'' @ [BSL, LF, BSL, SEMI, BSL, BSL, COMMA, LF, LOWER_N]"
proof -
  have h: "\<not> adjacent BSL LOWER_N (u ''a;b,c'' @ [BSL, LF, BSL, SEMI, BSL, BSL, COMMA, LF, LOWER_N])"
    by (simp add: u_def BSL_def SEMI_def COMMA_def LF_def LOWER_N_def)
  show ?thesis using h unescape_escape [OF h] by (rule conjI)
qed

text \<open>
  Claim C4 as stated fails on the two-character text backslash, n: escaping doubles the
  backslash, and the first reverse substitution then takes the second backslash and the
  letter for an escaped newline.
\<close>

theorem unescape_escape_counterexample:
  "unescape_text (escape_text [BSL, LOWER_N]) \<noteq> [BSL, LOWER_N]"
  by (simp add: unescape_text_def escape_text_def BSL_def SEMI_def COMMA_def LF_def LOWER_N_def)


section \<open>Dates\<close>

lemma digit_value_ascii: "k < 10 \<Longrightarrow> digit_value E (48 + k) = Some k"
  by (simp add: digit_value_def)

lemma is_digit_ascii: "k < 10 \<Longrightarrow> is_digit E (48 + k)"
  by (simp add: is_digit_def digit_value_ascii)

lemma dec2: "(n::nat) < 100 \<Longrightarrow> 10 * (n div 10 mod 10) + n mod 10 = n"
  by simp

lemma dec4:
  assumes "(n::nat) < 10000"
  shows "1000 * (n div 1000 mod 10) + 100 * (n div 100 mod 10) + 10 * (n div 10 mod 10) + n mod 10 = n"
proof -
  define a where "a = n div 10"
  define b where "b = a div 10"
  define c where "c = b div 10"
  have 1: "n = 10 * a + n mod 10" unfolding a_def by simp
  have 2: "a = 10 * b + a mod 10" unfolding b_def by simp
  have 3: "b = 10 * c + b mod 10" unfolding c_def by simp
  have c: "c < 10" unfolding c_def b_def a_def using assms by (simp add: div_mult2_eq [symmetric])
  have "n div 100 = b" "n div 1000 = c" unfolding c_def b_def a_def by (simp_all add: div_mult2_eq [symmetric])
  moreover have "c mod 10 = c" using c by simp
  ultimately show ?thesis using 1 2 3 unfolding a_def [symmetric] by simp
qed

lemma match_date_iso: "match_date E (iso_date y m d)"
  by (simp add: match_date_def iso_date_def pad4_def pad2_def u_def is_digit_ascii)

lemma format_date_iso: "format_date (iso_date y m d) = pad4 y @ pad2 m @ pad2 d"
  by (simp add: format_date_def iso_date_def pad4_def pad2_def u_def)

lemma month_digits:
  assumes "1 \<le> m" "m \<le> 12"
  shows "(48 + m div 10 mod 10 = 49 \<and> 48 \<le> 48 + m mod 10 \<and> 48 + m mod 10 \<le> 50) \<or>
         (48 + m div 10 mod 10 = 48 \<and> 49 \<le> 48 + m mod 10 \<and> 48 + m mod 10 \<le> (57::nat))"
proof (cases "m < 10")
  case True
  then show ?thesis using assms by simp
next
  case False
  then have "m div 10 = 1" "m mod 10 = m - 10" using assms by (simp_all add: div_nat_eqI mod_if)
  then show ?thesis using assms False by simp
qed

lemma day_digits:
  assumes "1 \<le> d" "d \<le> 31"
  shows "(48 + d div 10 mod 10 = 51 \<and> 48 \<le> 48 + d mod 10 \<and> 48 + d mod 10 \<le> 49) \<or>
         ((48 + d div 10 mod 10 = 49 \<or> 48 + d div 10 mod 10 = 50) \<and> is_digit E (48 + d mod 10)) \<or>
         (48 + d div 10 mod 10 = 48 \<and> 49 \<le> 48 + d mod 10 \<and> 48 + d mod 10 \<le> (57::nat))"
proof -
  consider "d < 10" | "10 \<le> d" "d < 20" | "20 \<le> d" "d < 30" | "30 \<le> d"
    by linarith
  then show ?thesis
  proof cases
    case 1
    then show ?thesis using assms by simp
  next
    case 2
    then have "d div 10 = 1" by (simp add: div_nat_eqI)
    then show ?thesis by (simp add: is_digit_ascii)
  next
    case 3
    then have "d div 10 = 2" by (simp add: div_nat_eqI)
    then show ?thesis by (simp add: is_digit_ascii)
  next
    case 4
    then have "d div 10 = 3" "d mod 10 = d - 30" using assms by (simp_all add: div_nat_eqI mod_nat_eqI)
    then show ?thesis using assms 4 by simp
  qed
qed

lemma days_in_month_le: "days_in_month y m \<le> 31"
  by (simp add: days_in_month_def)

lemma strptime_iso:
  assumes "1 \<le> y" "y \<le> 9999" "1 \<le> m" "m \<le> 12" "1 \<le> d" "d \<le> days_in_month y m"
  shows "strptime E (iso_date y m d) = Inr (y, m, d)"
proof -
  have d31: "d \<le> 31" using assms(6) days_in_month_le [of y m] by simp
  have y: "1000 * (y div 1000 mod 10) + 100 * (y div 100 mod 10) + 10 * (y div 10 mod 10) + y mod 10 = y"
    using assms(2) by (intro dec4) simp
  have m: "10 * (m div 10 mod 10) + m mod 10 = m" using assms(4) by (intro dec2) simp
  have d: "10 * (d div 10 mod 10) + d mod 10 = d" using d31 by (intro dec2) simp
  show ?thesis
    using month_digits [OF assms(3,4)] day_digits [OF assms(5) d31, of E] assms(1,6)
    by (simp add: iso_date_def pad4_def pad2_def u_def digit_value_ascii y m d Let_def)
qed


lemma days_before_month_Suc:
  "1 \<le> m \<Longrightarrow> days_before_month y (Suc m) = days_before_month y m + days_in_month y m"
  by (simp add: days_before_month_def)

lemma days_in_year: "days_before_month y 12 + 31 = (if is_leap y then 366 else 365)"
proof -
  have "[1..<12] = [1, 2, 3, 4, 5, 6, 7, 8, 9, 10, 11::nat]" by (simp add: upt_rec)
  then show ?thesis by (simp add: days_before_month_def days_in_month_def)
qed

lemma year_step:
  fixes a b c x :: nat
  assumes "b \<le> a"
  shows "365 * Suc x + a - b + c = 365 * x + a - b + c + 365"
    and "365 * Suc x + (a + 1) - b + c = 365 * x + a - b + c + 366"
    and "365 * Suc x + (a + 1) - (b + 1) + c = 365 * x + a - b + c + 365"
    and "365 * Suc x + (a + 1) - (b + 1) + (c + 1) = 365 * x + a - b + c + 366"
  using assms by simp_all

lemma days_before_year_Suc:
  assumes "1 \<le> y"
  shows "days_before_year (Suc y) = days_before_year y + (if is_leap y then 366 else 365)"
proof -
  obtain x where x: "y = Suc x" using assms by (cases y) auto
  define a where "a = x div 4"
  define b where "b = x div 100"
  define c where "c = x div 400"
  have d4: "Suc x div 4 = (if Suc x mod 4 = 0 then a + 1 else a)" by (simp add: div_Suc a_def)
  have d100: "Suc x div 100 = (if Suc x mod 100 = 0 then b + 1 else b)" by (simp add: div_Suc b_def)
  have d400: "Suc x div 400 = (if Suc x mod 400 = 0 then c + 1 else c)" by (simp add: div_Suc c_def)
  have le: "b \<le> a" unfolding a_def b_def by (rule div_le_mono2) simp_all
  have m1: "Suc x mod 4 = 0" if "Suc x mod 100 = 0"
  proof -
    have "Suc x mod 100 mod 4 = Suc x mod 4" by (rule mod_mod_cancel) simp
    with that show ?thesis by simp
  qed
  have m2: "Suc x mod 100 = 0" if "Suc x mod 400 = 0"
  proof -
    have "Suc x mod 400 mod 100 = Suc x mod 100" by (rule mod_mod_cancel) simp
    with that show ?thesis by simp
  qed
  have e1: "days_before_year (Suc y) = 365 * Suc x + Suc x div 4 - Suc x div 100 + Suc x div 400"
    unfolding x by (simp only: days_before_year_def diff_Suc_1)
  have e2: "days_before_year y = 365 * x + a - b + c"
    unfolding x a_def b_def c_def by (simp only: days_before_year_def diff_Suc_1)
  have leap: "is_leap y \<longleftrightarrow> Suc x mod 4 = 0 \<and> (Suc x mod 100 \<noteq> 0 \<or> Suc x mod 400 = 0)"
    unfolding x is_leap_def ..
  consider (n1) "Suc x mod 4 \<noteq> 0" | (l1) "Suc x mod 4 = 0" "Suc x mod 100 \<noteq> 0"
    | (n2) "Suc x mod 100 = 0" "Suc x mod 400 \<noteq> 0" | (l2) "Suc x mod 400 = 0"
    by blast
  then show ?thesis
  proof cases
    case n1
    have p: "Suc x mod 100 \<noteq> 0"
    proof
      assume "Suc x mod 100 = 0"
      from m1 [OF this] n1 show False by (rule notE [rotated])
    qed
    have "Suc x mod 400 \<noteq> 0"
    proof
      assume "Suc x mod 400 = 0"
      from m2 [OF this] p show False by (rule notE [rotated])
    qed
    with n1 p show ?thesis unfolding e1 e2 leap d4 d100 d400 by (simp only: if_False simp_thms year_step(1) [OF le])
  next
    case l1
    have "Suc x mod 400 \<noteq> 0"
    proof
      assume "Suc x mod 400 = 0"
      from m2 [OF this] l1(2) show False by (rule notE [rotated])
    qed
    with l1 show ?thesis unfolding e1 e2 leap d4 d100 d400
      by (simp only: if_False if_True simp_thms not_False_eq_True year_step(2) [OF le])
  next
    case n2
    have "Suc x mod 4 = 0" using n2(1) by (rule m1)
    with n2 show ?thesis unfolding e1 e2 leap d4 d100 d400
      by (simp only: if_False if_True simp_thms not_False_eq_True not_True_eq_False year_step(3) [OF le])
  next
    case l2
    have p: "Suc x mod 100 = 0" using l2 by (rule m2)
    have "Suc x mod 4 = 0" using p by (rule m1)
    with l2 p show ?thesis unfolding e1 e2 leap d4 d100 d400
      by (simp only: if_False if_True simp_thms not_False_eq_True not_True_eq_False year_step(4) [OF le])
  qed
qed

lemma add_one_day_next:
  assumes "valid_date y m d" "(y, m, d) \<noteq> (9999, 12, 31)"
  shows "\<exists>y' m' d'. add_one_day (y, m, d) = Inr (y', m', d') \<and> valid_date y' m' d' \<and>
           day_number y' m' d' = day_number y m d + 1"
proof -
  have dim1: "\<And>k. 1 \<le> days_in_month y k" by (simp add: days_in_month_def)
  consider "d < days_in_month y m" | "d = days_in_month y m" "m < 12" | "d = days_in_month y m" "m = 12"
    using assms(1) unfolding valid_date_def by linarith
  then show ?thesis
  proof cases
    case 1
    then show ?thesis using assms(1)
      by (intro exI [of _ y] exI [of _ m] exI [of _ "d + 1"])
         (simp add: add_one_day_def valid_date_def day_number_def)
  next
    case 2
    have "days_before_month y (m + 1) = days_before_month y m + days_in_month y m"
      using days_before_month_Suc [of m y] assms(1) by (simp add: valid_date_def)
    then show ?thesis using 2 assms(1) dim1 [of "m + 1"]
      by (intro exI [of _ y] exI [of _ "m + 1"] exI [of _ 1])
         (simp add: add_one_day_def valid_date_def day_number_def)
  next
    case 3
    then have d31: "d = 31" by (simp add: days_in_month_def)
    have "y \<noteq> 9999" using assms(2) 3(2) d31 by simp
    then have y: "y < 9999" using assms(1) by (simp add: valid_date_def)
    have "days_before_month (y + 1) 1 = 0" by (simp add: days_before_month_def)
    moreover have "days_before_year (y + 1) = days_before_year y + (days_before_month y 12 + 31)"
      using days_before_year_Suc [of y] assms(1) days_in_year [of y] by (simp add: valid_date_def)
    ultimately show ?thesis using 3 d31 y assms(1)
      by (intro exI [of _ "y + 1"] exI [of _ 1] exI [of _ 1])
         (simp add: add_one_day_def valid_date_def day_number_def days_in_month_def)
  qed
qed

lemma add_one_day_cases:
  assumes "valid_date y m d" "(y, m, d) \<noteq> (9999, 12, 31)"
  shows "add_one_day (y, m, d) =
           Inr (if d < days_in_month y m then (y, m, d + 1)
                else if m < 12 then (y, m + 1, 1) else (y + 1, 1, 1))"
  using assms by (auto simp: add_one_day_def valid_date_def days_in_month_def)


lemma digits_pad4:
  assumes "1000 \<le> n" and "n \<le> 9999"
  shows "digits n = pad4 n"
proof -
  have d: "n div 10 div 10 = n div 100" "n div 10 div 10 div 10 = n div 1000"
    by (simp_all add: div_mult2_eq [symmetric])
  have g1: "\<not> n < 10" using assms by simp
  have "10 \<le> n div 10" using div_le_mono [OF assms(1), of 10] by simp
  then have g2: "\<not> n div 10 < 10" by simp
  have "10 \<le> n div 100" using div_le_mono [OF assms(1), of 100] by simp
  then have g3: "\<not> n div 100 < 10" by simp
  have "n div 1000 \<le> 9" using div_le_mono [OF assms(2), of 1000] by simp
  then have g4: "n div 1000 < 10" by simp
  have m: "n div 1000 mod 10 = n div 1000" using g4 by simp
  have "digits n = digits (n div 10) @ [48 + n mod 10]"
    using g1 by (subst digits.simps) simp
  also have "digits (n div 10) = digits (n div 100) @ [48 + n div 10 mod 10]"
    using g2 by (subst digits.simps) (simp add: d)
  also have "digits (n div 100) = digits (n div 1000) @ [48 + n div 100 mod 10]"
    using g3 by (subst digits.simps) (simp add: div_mult2_eq [symmetric])
  also have "digits (n div 1000) = [48 + n div 1000]"
    using g4 by (subst digits.simps) simp
  finally show ?thesis by (simp add: pad4_def m)
qed

section \<open>The lines of one event\<close>

lemma vevent_lines_Inr_iff:
  "vevent_lines E n ev dflt = Inr ls \<longleftrightarrow>
     truthy (date ev) \<and> truthy (summary ev) \<and> match_date E (the (date ev)) \<and>
     (truthy (time ev) \<longrightarrow> match_time E (the (time ev))) \<and>
     (truthy (status ev) \<longrightarrow> the (status ev) \<in> set status_values) \<and>
     (truthy (transp ev) \<longrightarrow> the (transp ev) \<in> set transp_values) \<and>
     (\<exists>temporal.
        temporal_lines E (the (date ev)) (the (summary ev)) (time ev) (tz_of ev dflt) (duration_of ev dflt)
          = Inr temporal \<and>
        ls = [u ''BEGIN:VEVENT'', u ''UID:'' @ generate_uid E n (the (summary ev)) (the (date ev)),
              u ''DTSTAMP:'' @ utcnow E n] @ temporal @
             [u ''SUMMARY:'' @ escape_text (the (summary ev))] @ text_lines ev @ enum_lines ev @
             alarm_lines (reminder_of ev dflt) @ [u ''END:VEVENT''])"
  unfolding vevent_lines_def Let_def enum_lines_def
  by (cases "temporal_lines E (the (date ev)) (the (summary ev)) (time ev) (tz_of ev dflt) (duration_of ev dflt)")
     (auto simp del: set_simps)


lemma prop_name_lit [simp]:
  "prop_name (u ''BEGIN:VEVENT'') = u ''BEGIN''"
  "prop_name (u ''END:VEVENT'') = u ''END''"
  "prop_name (u ''BEGIN:VALARM'') = u ''BEGIN''"
  "prop_name (u ''END:VALARM'') = u ''END''"
  "prop_name (u ''ACTION:DISPLAY'') = u ''ACTION''"
  "prop_name (u ''DESCRIPTION:Reminder'') = u ''DESCRIPTION''"
  "prop_name (u ''UID:'' @ x) = u ''UID''"
  "prop_name (u ''DTSTAMP:'' @ x) = u ''DTSTAMP''"
  "prop_name (u ''DTSTART;VALUE=DATE:'' @ x) = u ''DTSTART''"
  "prop_name (u ''DTEND;VALUE=DATE:'' @ x) = u ''DTEND''"
  "prop_name (u ''DTSTART;TZID='' @ x) = u ''DTSTART''"
  "prop_name (u ''DURATION:'' @ x) = u ''DURATION''"
  "prop_name (u ''SUMMARY:'' @ x) = u ''SUMMARY''"
  "prop_name (u ''DESCRIPTION:'' @ x) = u ''DESCRIPTION''"
  "prop_name (u ''LOCATION:'' @ x) = u ''LOCATION''"
  "prop_name (u ''URL:'' @ x) = u ''URL''"
  "prop_name (u ''CATEGORIES:'' @ x) = u ''CATEGORIES''"
  "prop_name (u ''STATUS:'' @ x) = u ''STATUS''"
  "prop_name (u ''TRANSP:'' @ x) = u ''TRANSP''"
  "prop_name (u ''RRULE:'' @ x) = u ''RRULE''"
  "prop_name (u ''TRIGGER:'' @ x) = u ''TRIGGER''"
  by (simp_all add: prop_name_def u_def)

lemma names_text_lines:
  "map prop_name (text_lines ev) =
     (if truthy (description ev) then [u ''DESCRIPTION''] else []) @
     (if truthy (location ev) then [u ''LOCATION''] else []) @
     (if truthy (url ev) then [u ''URL''] else []) @
     (if truthy (categories ev) then [u ''CATEGORIES''] else [])"
  by (simp add: text_lines_def)

lemma names_enum_lines:
  "map prop_name (enum_lines ev) =
     (if truthy (status ev) then [u ''STATUS''] else []) @
     (if truthy (transp ev) then [u ''TRANSP''] else []) @
     (if truthy (rrule ev) then [u ''RRULE''] else [])"
  by (simp add: enum_lines_def)

lemma names_alarm_lines:
  "map prop_name (alarm_lines r) =
     (if truthy_int r \<and> 0 < the r
      then [u ''BEGIN'', u ''TRIGGER'', u ''ACTION'', u ''DESCRIPTION'', u ''END''] else [])"
  by (simp add: alarm_lines_def)

lemma names_temporal_lines:
  "temporal_lines E dat summ tim tz dur = Inr temporal \<Longrightarrow>
     map prop_name temporal =
       (if tim = None then [u ''DTSTART'', u ''DTEND'']
        else [u ''DTSTART''] @ (if truthy_int dur then [u ''DURATION''] else []))"
  by (auto simp: temporal_lines_def split: option.splits sum.splits if_splits)

lemma temporal_lines_timed:
  "temporal_lines E dat summ (Some t) tz dur =
     (if \<not> truthy tz then Inl (NoTimezone summ)
      else Inr ([u ''DTSTART;TZID='' @ the tz @ u '':'' @ format_datetime dat t] @
                (if truthy_int dur then [u ''DURATION:'' @ dur_parts (the dur)] else [])))"
  by (simp add: temporal_lines_def)

lemma temporal_lines_allday:
  "temporal_lines E dat summ None tz dur =
     (case strptime E dat of
        Inl e \<Rightarrow> Inl e
      | Inr dt \<Rightarrow> (case add_one_day dt of
                    Inl e \<Rightarrow> Inl e
                  | Inr nd \<Rightarrow> Inr [u ''DTSTART;VALUE=DATE:'' @ format_date dat,
                                  u ''DTEND;VALUE=DATE:'' @ strftime_Ymd nd]))"
  by (simp add: temporal_lines_def)

lemma trigger_dur: "trigger_parts n = 45 # dur_parts n"
  by (simp add: trigger_parts_def dur_parts_def Let_def u_def)


lemma vevent_lines_InrE:
  assumes "vevent_lines E n ev dflt = Inr ls"
  obtains temporal where
    "temporal_lines E (the (date ev)) (the (summary ev)) (time ev) (tz_of ev dflt) (duration_of ev dflt)
       = Inr temporal"
    "ls = [u ''BEGIN:VEVENT'', u ''UID:'' @ generate_uid E n (the (summary ev)) (the (date ev)),
           u ''DTSTAMP:'' @ utcnow E n] @ temporal @
          [u ''SUMMARY:'' @ escape_text (the (summary ev))] @ text_lines ev @ enum_lines ev @
          alarm_lines (reminder_of ev dflt) @ [u ''END:VEVENT'']"
  using assms unfolding vevent_lines_Inr_iff by blast

lemma names_vevent_lines:
  assumes "vevent_lines E n ev dflt = Inr ls"
  shows "map prop_name ls =
           [u ''BEGIN'', u ''UID'', u ''DTSTAMP''] @
           (if time ev = None then [u ''DTSTART'', u ''DTEND'']
            else [u ''DTSTART''] @ (if truthy_int (duration_of ev dflt) then [u ''DURATION''] else [])) @
           [u ''SUMMARY''] @ map prop_name (text_lines ev) @ map prop_name (enum_lines ev) @
           map prop_name (alarm_lines (reminder_of ev dflt)) @ [u ''END'']"
proof -
  from assms obtain temporal where
    t: "temporal_lines E (the (date ev)) (the (summary ev)) (time ev) (tz_of ev dflt) (duration_of ev dflt)
          = Inr temporal"
    and ls: "ls = [u ''BEGIN:VEVENT'', u ''UID:'' @ generate_uid E n (the (summary ev)) (the (date ev)),
              u ''DTSTAMP:'' @ utcnow E n] @ temporal @
             [u ''SUMMARY:'' @ escape_text (the (summary ev))] @ text_lines ev @ enum_lines ev @
             alarm_lines (reminder_of ev dflt) @ [u ''END:VEVENT'']"
    by (rule vevent_lines_InrE)
  show ?thesis unfolding ls using names_temporal_lines [OF t] by simp
qed

lemma u_neq [simp]:
  "u ''DURATION'' \<noteq> u ''BEGIN''" "u ''DURATION'' \<noteq> u ''UID''" "u ''DURATION'' \<noteq> u ''DTSTAMP''"
  "u ''DURATION'' \<noteq> u ''DTSTART''" "u ''DURATION'' \<noteq> u ''DTEND''" "u ''DURATION'' \<noteq> u ''SUMMARY''"
  "u ''DURATION'' \<noteq> u ''DESCRIPTION''" "u ''DURATION'' \<noteq> u ''LOCATION''" "u ''DURATION'' \<noteq> u ''URL''"
  "u ''DURATION'' \<noteq> u ''CATEGORIES''" "u ''DURATION'' \<noteq> u ''STATUS''" "u ''DURATION'' \<noteq> u ''TRANSP''"
  "u ''DURATION'' \<noteq> u ''RRULE''" "u ''DURATION'' \<noteq> u ''TRIGGER''" "u ''DURATION'' \<noteq> u ''ACTION''"
  "u ''DURATION'' \<noteq> u ''END''"
  "u ''TRIGGER'' \<noteq> u ''BEGIN''" "u ''TRIGGER'' \<noteq> u ''UID''" "u ''TRIGGER'' \<noteq> u ''DTSTAMP''"
  "u ''TRIGGER'' \<noteq> u ''DTSTART''" "u ''TRIGGER'' \<noteq> u ''DTEND''" "u ''TRIGGER'' \<noteq> u ''SUMMARY''"
  "u ''TRIGGER'' \<noteq> u ''DESCRIPTION''" "u ''TRIGGER'' \<noteq> u ''LOCATION''" "u ''TRIGGER'' \<noteq> u ''URL''"
  "u ''TRIGGER'' \<noteq> u ''CATEGORIES''" "u ''TRIGGER'' \<noteq> u ''STATUS''" "u ''TRIGGER'' \<noteq> u ''TRANSP''"
  "u ''TRIGGER'' \<noteq> u ''RRULE''" "u ''TRIGGER'' \<noteq> u ''DURATION''" "u ''TRIGGER'' \<noteq> u ''ACTION''"
  "u ''TRIGGER'' \<noteq> u ''END''"
  "u ''STATUS'' \<noteq> u ''BEGIN''" "u ''STATUS'' \<noteq> u ''UID''" "u ''STATUS'' \<noteq> u ''DTSTAMP''"
  "u ''STATUS'' \<noteq> u ''DTSTART''" "u ''STATUS'' \<noteq> u ''DTEND''" "u ''STATUS'' \<noteq> u ''SUMMARY''"
  "u ''STATUS'' \<noteq> u ''DESCRIPTION''" "u ''STATUS'' \<noteq> u ''LOCATION''" "u ''STATUS'' \<noteq> u ''URL''"
  "u ''STATUS'' \<noteq> u ''CATEGORIES''" "u ''STATUS'' \<noteq> u ''DURATION''" "u ''STATUS'' \<noteq> u ''TRANSP''"
  "u ''STATUS'' \<noteq> u ''RRULE''" "u ''STATUS'' \<noteq> u ''TRIGGER''" "u ''STATUS'' \<noteq> u ''ACTION''"
  "u ''STATUS'' \<noteq> u ''END''"
  by (simp_all add: u_def)


section \<open>Duration, alarm and enumerations\<close>

lemma dur_parts_nonneg:
  "0 \<le> n \<Longrightarrow> dur_parts n =
     u ''PT'' @ (if 0 < n div 60 then str_int (n div 60) @ u ''H'' else []) @
     (if 0 < n mod 60 then str_int (n mod 60) @ u ''M'' else []) @
     (if n div 60 = 0 \<and> n mod 60 = 0 then u ''0M'' else [])"
proof -
  assume "0 \<le> n"
  then have "0 \<le> n div 60" "0 \<le> n mod 60" by simp_all
  then have "(n div 60 \<noteq> 0) = (0 < n div 60)" "(n mod 60 \<noteq> 0) = (0 < n mod 60)" by linarith+
  then show ?thesis by (simp add: dur_parts_def Let_def)
qed

lemma duration_line_iff:
  assumes "vevent_lines E k ev dflt = Inr ls"
  shows "u ''DURATION'' \<in> set (map prop_name ls) \<longleftrightarrow> time ev \<noteq> None \<and> truthy_int (duration_of ev dflt)"
  unfolding names_vevent_lines [OF assms] names_text_lines names_enum_lines names_alarm_lines
  by simp

lemma trigger_line_iff:
  assumes "vevent_lines E k ev dflt = Inr ls"
  shows "u ''TRIGGER'' \<in> set (map prop_name ls) \<longleftrightarrow>
           truthy_int (reminder_of ev dflt) \<and> 0 < the (reminder_of ev dflt)"
  unfolding names_vevent_lines [OF assms] names_text_lines names_enum_lines names_alarm_lines
  by simp

lemma status_line_iff:
  assumes "vevent_lines E k ev dflt = Inr ls"
  shows "u ''STATUS'' \<in> set (map prop_name ls) \<longleftrightarrow> truthy (status ev)"
  unfolding names_vevent_lines [OF assms] names_text_lines names_enum_lines names_alarm_lines
  by simp

lemma duration_line_mem:
  assumes "vevent_lines E k ev dflt = Inr ls" "time ev \<noteq> None" "duration_of ev dflt = Some d" "d \<noteq> 0"
  shows "u ''DURATION:'' @ dur_parts d \<in> set ls"
proof -
  from assms(1) obtain temporal where
    t: "temporal_lines E (the (date ev)) (the (summary ev)) (time ev) (tz_of ev dflt) (duration_of ev dflt)
          = Inr temporal"
    and eq: "ls = [u ''BEGIN:VEVENT'', u ''UID:'' @ generate_uid E k (the (summary ev)) (the (date ev)),
              u ''DTSTAMP:'' @ utcnow E k] @ temporal @
             [u ''SUMMARY:'' @ escape_text (the (summary ev))] @ text_lines ev @ enum_lines ev @
             alarm_lines (reminder_of ev dflt) @ [u ''END:VEVENT'']"
    by (rule vevent_lines_InrE)
  have ls: "set temporal \<subseteq> set ls" unfolding eq by auto
  from assms(2) obtain t' where "time ev = Some t'" by auto
  with t assms(3,4) have "u ''DURATION:'' @ dur_parts d \<in> set temporal"
    by (auto simp: temporal_lines_timed truthy_int_def split: if_splits)
  with ls show ?thesis by blast
qed

lemma alarm_block_end:
  assumes "vevent_lines E k ev dflt = Inr ls" "reminder_of ev dflt = Some r" "0 < r"
  shows "\<exists>pre. ls = pre @ [u ''BEGIN:VALARM'', u ''TRIGGER:'' @ u ''-'' @ dur_parts r, u ''ACTION:DISPLAY'',
                          u ''DESCRIPTION:Reminder'', u ''END:VALARM'', u ''END:VEVENT'']"
proof -
  from assms(1) obtain temporal where
    "ls = [u ''BEGIN:VEVENT'', u ''UID:'' @ generate_uid E k (the (summary ev)) (the (date ev)),
              u ''DTSTAMP:'' @ utcnow E k] @ temporal @
             [u ''SUMMARY:'' @ escape_text (the (summary ev))] @ text_lines ev @ enum_lines ev @
             alarm_lines (reminder_of ev dflt) @ [u ''END:VEVENT'']"
    by (rule vevent_lines_InrE)
  then obtain pre where "ls = pre @ alarm_lines (reminder_of ev dflt) @ [u ''END:VEVENT'']"
    by (metis append.assoc)
  then show ?thesis using assms(2,3)
    by (intro exI [of _ pre]) (simp add: alarm_lines_def truthy_int_def trigger_dur u_def)
qed

text \<open>
  Claim C7.  For a non-negative minute count the duration token is PT, an H segment
  only if the hours are positive, an M segment only if the remaining minutes are
  positive, and 0M if both are zero; the trigger token is a minus sign before the
  duration token of the same count.  A built timed event whose effective duration is
  not negative has a DURATION line exactly when that duration is positive, and then it
  is the line with the duration token.  A built event has an alarm block, with the
  trigger token of the effective reminder, exactly when that reminder is positive.
\<close>

theorem duration_and_alarm:
  "(0 \<le> n \<longrightarrow>
      dur_parts n =
        u ''PT'' @ (if 0 < n div 60 then str_int (n div 60) @ u ''H'' else []) @
        (if 0 < n mod 60 then str_int (n mod 60) @ u ''M'' else []) @
        (if n div 60 = 0 \<and> n mod 60 = 0 then u ''0M'' else [])) \<and>
   trigger_parts n = u ''-'' @ dur_parts n \<and>
   (vevent_lines E k ev dflt = Inr ls \<longrightarrow>
      (time ev \<noteq> None \<and> (\<forall>d. duration_of ev dflt = Some d \<longrightarrow> 0 \<le> d) \<longrightarrow>
         (u ''DURATION'' \<in> set (map prop_name ls) \<longleftrightarrow> (\<exists>d. duration_of ev dflt = Some d \<and> 0 < d)) \<and>
         (\<forall>d. duration_of ev dflt = Some d \<and> 0 < d \<longrightarrow> u ''DURATION:'' @ dur_parts d \<in> set ls)) \<and>
      (u ''TRIGGER'' \<in> set (map prop_name ls) \<longleftrightarrow> (\<exists>r. reminder_of ev dflt = Some r \<and> 0 < r)) \<and>
      (\<forall>r. reminder_of ev dflt = Some r \<and> 0 < r \<longrightarrow>
         (\<exists>pre. ls = pre @ [u ''BEGIN:VALARM'', u ''TRIGGER:'' @ u ''-'' @ dur_parts r,
                            u ''ACTION:DISPLAY'', u ''DESCRIPTION:Reminder'', u ''END:VALARM'',
                            u ''END:VEVENT''])))"
proof (intro conjI impI)
  assume "0 \<le> n"
  then show "dur_parts n =
        u ''PT'' @ (if 0 < n div 60 then str_int (n div 60) @ u ''H'' else []) @
        (if 0 < n mod 60 then str_int (n mod 60) @ u ''M'' else []) @
        (if n div 60 = 0 \<and> n mod 60 = 0 then u ''0M'' else [])"
    by (rule dur_parts_nonneg)
next
  show "trigger_parts n = u ''-'' @ dur_parts n" by (simp add: trigger_dur u_def)
next
  assume b: "vevent_lines E k ev dflt = Inr ls"
    and h: "time ev \<noteq> None \<and> (\<forall>d. duration_of ev dflt = Some d \<longrightarrow> 0 \<le> d)"
  show "u ''DURATION'' \<in> set (map prop_name ls) \<longleftrightarrow> (\<exists>d. duration_of ev dflt = Some d \<and> 0 < d)"
    unfolding duration_line_iff [OF b] using h
    by (cases "duration_of ev dflt") (auto simp: truthy_int_def)
  show "\<forall>d. duration_of ev dflt = Some d \<and> 0 < d \<longrightarrow> u ''DURATION:'' @ dur_parts d \<in> set ls"
    using duration_line_mem [OF b] h by auto
next
  assume b: "vevent_lines E k ev dflt = Inr ls"
  show "u ''TRIGGER'' \<in> set (map prop_name ls) \<longleftrightarrow> (\<exists>r. reminder_of ev dflt = Some r \<and> 0 < r)"
    unfolding trigger_line_iff [OF b]
    by (cases "reminder_of ev dflt") (auto simp: truthy_int_def)
  show "\<forall>r. reminder_of ev dflt = Some r \<and> 0 < r \<longrightarrow>
         (\<exists>pre. ls = pre @ [u ''BEGIN:VALARM'', u ''TRIGGER:'' @ u ''-'' @ dur_parts r,
                            u ''ACTION:DISPLAY'', u ''DESCRIPTION:Reminder'', u ''END:VALARM'',
                            u ''END:VEVENT''])"
    using alarm_block_end [OF b] by blast
qed


theorem duration_and_alarm_witness:
  "(0::int) \<le> 30 \<and> time sync_event \<noteq> None \<and>
   duration_of sync_event example_defaults = Some 30 \<and>
   reminder_of sync_event example_defaults = Some 15 \<and>
   vevent_lines example_env 0 sync_event example_defaults =
     Inr [u ''BEGIN:VEVENT'', u ''UID:sync-2024-06-01-01234567@claude'', u ''DTSTAMP:20240101T120000Z'',
          u ''DTSTART;TZID=UTC:20240601T090000'', u ''DURATION:PT30M'', u ''SUMMARY:Sync'',
          u ''BEGIN:VALARM'', u ''TRIGGER:-PT15M'', u ''ACTION:DISPLAY'', u ''DESCRIPTION:Reminder'',
          u ''END:VALARM'', u ''END:VEVENT''] \<and>
   dur_parts 30 = u ''PT30M'' \<and> trigger_parts 15 = u ''-PT15M'' \<and>
   u ''DURATION:'' @ dur_parts 30 \<in>
     set [u ''BEGIN:VEVENT'', u ''UID:sync-2024-06-01-01234567@claude'', u ''DTSTAMP:20240101T120000Z'',
          u ''DTSTART;TZID=UTC:20240601T090000'', u ''DURATION:PT30M'', u ''SUMMARY:Sync'',
          u ''BEGIN:VALARM'', u ''TRIGGER:-PT15M'', u ''ACTION:DISPLAY'', u ''DESCRIPTION:Reminder'',
          u ''END:VALARM'', u ''END:VEVENT'']"
proof -
  have b: "vevent_lines example_env 0 sync_event example_defaults =
     Inr [u ''BEGIN:VEVENT'', u ''UID:sync-2024-06-01-01234567@claude'', u ''DTSTAMP:20240101T120000Z'',
          u ''DTSTART;TZID=UTC:20240601T090000'', u ''DURATION:PT30M'', u ''SUMMARY:Sync'',
          u ''BEGIN:VALARM'', u ''TRIGGER:-PT15M'', u ''ACTION:DISPLAY'', u ''DESCRIPTION:Reminder'',
          u ''END:VALARM'', u ''END:VEVENT'']"
    by code_simp
  have t: "time sync_event \<noteq> None" by (simp add: sync_event_def)
  have d: "duration_of sync_event example_defaults = Some 30"
    by (simp add: duration_of_def sync_event_def get_or_def)
  have r: "reminder_of sync_event example_defaults = Some 15"
    by (simp add: reminder_of_def sync_event_def get_or_def)
  have p: "dur_parts 30 = u ''PT30M''" "trigger_parts 15 = u ''-PT15M''" by code_simp+
  have h: "time sync_event \<noteq> None \<and> (\<forall>x. duration_of sync_event example_defaults = Some x \<longrightarrow> 0 \<le> x)"
    using t d by simp
  have "\<forall>x. duration_of sync_event example_defaults = Some x \<and> 0 < x \<longrightarrow>
          u ''DURATION:'' @ dur_parts x \<in>
     set [u ''BEGIN:VEVENT'', u ''UID:sync-2024-06-01-01234567@claude'', u ''DTSTAMP:20240101T120000Z'',
          u ''DTSTART;TZID=UTC:20240601T090000'', u ''DURATION:PT30M'', u ''SUMMARY:Sync'',
          u ''BEGIN:VALARM'', u ''TRIGGER:-PT15M'', u ''ACTION:DISPLAY'', u ''DESCRIPTION:Reminder'',
          u ''END:VALARM'', u ''END:VEVENT'']"
    using conjunct2 [OF mp [OF conjunct1 [OF mp [OF conjunct2 [OF conjunct2 [OF duration_and_alarm]] b]] h]]
    by this
  then have "u ''DURATION:'' @ dur_parts 30 \<in>
     set [u ''BEGIN:VEVENT'', u ''UID:sync-2024-06-01-01234567@claude'', u ''DTSTAMP:20240101T120000Z'',
          u ''DTSTART;TZID=UTC:20240601T090000'', u ''DURATION:PT30M'', u ''SUMMARY:Sync'',
          u ''BEGIN:VALARM'', u ''TRIGGER:-PT15M'', u ''ACTION:DISPLAY'', u ''DESCRIPTION:Reminder'',
          u ''END:VALARM'', u ''END:VEVENT'']"
    using d by simp
  with b t d r p show ?thesis by (intro conjI) simp_all
qed

lemma status_values_nonempty: "[] \<notin> set status_values" "[] \<notin> set transp_values"
  by (simp_all add: status_values_def transp_values_def u_def)

lemma vevent_lines_Inl_status:
  assumes "truthy (status ev)" "the (status ev) \<notin> set status_values"
  shows "isl (vevent_lines E n ev dflt)"
proof (cases "vevent_lines E n ev dflt")
  case (Inr ls)
  then show ?thesis using assms unfolding vevent_lines_Inr_iff by blast
qed simp

lemma vevent_lines_Inl_transp:
  assumes "truthy (transp ev)" "the (transp ev) \<notin> set transp_values"
  shows "isl (vevent_lines E n ev dflt)"
proof (cases "vevent_lines E n ev dflt")
  case (Inr ls)
  then show ?thesis using assms unfolding vevent_lines_Inr_iff by blast
qed simp

lemma status_error:
  assumes "truthy (status ev)" "the (status ev) \<notin> set status_values"
    and "truthy (date ev)" "truthy (summary ev)" "match_date E (the (date ev))"
    and "truthy (time ev) \<longrightarrow> match_time E (the (time ev))"
    and "\<not> isl (temporal_lines E (the (date ev)) (the (summary ev)) (time ev) (tz_of ev dflt) (duration_of ev dflt))"
  shows "vevent_lines E n ev dflt = Inl (InvalidStatus (the (status ev)))"
  using assms unfolding vevent_lines_def Let_def
  by (cases "temporal_lines E (the (date ev)) (the (summary ev)) (time ev) (tz_of ev dflt) (duration_of ev dflt)")
     (auto simp del: set_simps)

lemma transp_error:
  assumes "truthy (transp ev)" "the (transp ev) \<notin> set transp_values"
    and "truthy (date ev)" "truthy (summary ev)" "match_date E (the (date ev))"
    and "truthy (time ev) \<longrightarrow> match_time E (the (time ev))"
    and "\<not> isl (temporal_lines E (the (date ev)) (the (summary ev)) (time ev) (tz_of ev dflt) (duration_of ev dflt))"
    and "truthy (status ev) \<longrightarrow> the (status ev) \<in> set status_values"
  shows "vevent_lines E n ev dflt = Inl (InvalidTransp (the (transp ev)))"
  using assms unfolding vevent_lines_def Let_def
  by (cases "temporal_lines E (the (date ev)) (the (summary ev)) (time ev) (tz_of ev dflt) (duration_of ev dflt)")
     (auto simp del: set_simps)

lemma enum_lines_mem:
  assumes "vevent_lines E n ev dflt = Inr ls"
  shows "(truthy (status ev) \<longrightarrow> the (status ev) \<in> set status_values \<and> u ''STATUS:'' @ the (status ev) \<in> set ls) \<and>
         (truthy (transp ev) \<longrightarrow> the (transp ev) \<in> set transp_values \<and> u ''TRANSP:'' @ the (transp ev) \<in> set ls)"
proof -
  from assms obtain temporal where
    eq: "ls = [u ''BEGIN:VEVENT'', u ''UID:'' @ generate_uid E n (the (summary ev)) (the (date ev)),
           u ''DTSTAMP:'' @ utcnow E n] @ temporal @
          [u ''SUMMARY:'' @ escape_text (the (summary ev))] @ text_lines ev @ enum_lines ev @
          alarm_lines (reminder_of ev dflt) @ [u ''END:VEVENT'']"
    by (rule vevent_lines_InrE)
  have "set (enum_lines ev) \<subseteq> set ls" unfolding eq by auto
  moreover have "truthy (status ev) \<longrightarrow> u ''STATUS:'' @ the (status ev) \<in> set (enum_lines ev)"
    "truthy (transp ev) \<longrightarrow> u ''TRANSP:'' @ the (transp ev) \<in> set (enum_lines ev)"
    by (simp_all add: enum_lines_def)
  ultimately show ?thesis using assms unfolding vevent_lines_Inr_iff by blast
qed

text \<open>
  Claim C9, as amended.  A status that is present and not empty must be one of
  TENTATIVE, CONFIRMED, CANCELLED, and a transp that is present and not empty one of
  OPAQUE, TRANSPARENT: with any other non-empty value the build fails, and it fails with
  the error that names the enumeration whenever the record passes the checks made
  before that one.  A built event carries the value as given.
\<close>

theorem enumerations_checked:
  "(truthy (status ev) \<and> the (status ev) \<notin> set status_values \<longrightarrow>
      isl (vevent_lines E n ev dflt) \<and>
      (truthy (date ev) \<and> truthy (summary ev) \<and> match_date E (the (date ev)) \<and>
       (truthy (time ev) \<longrightarrow> match_time E (the (time ev))) \<and>
       \<not> isl (temporal_lines E (the (date ev)) (the (summary ev)) (time ev) (tz_of ev dflt) (duration_of ev dflt))
       \<longrightarrow> vevent_lines E n ev dflt = Inl (InvalidStatus (the (status ev))))) \<and>
   (truthy (transp ev) \<and> the (transp ev) \<notin> set transp_values \<longrightarrow>
      isl (vevent_lines E n ev dflt) \<and>
      (truthy (date ev) \<and> truthy (summary ev) \<and> match_date E (the (date ev)) \<and>
       (truthy (time ev) \<longrightarrow> match_time E (the (time ev))) \<and>
       \<not> isl (temporal_lines E (the (date ev)) (the (summary ev)) (time ev) (tz_of ev dflt) (duration_of ev dflt)) \<and>
       (truthy (status ev) \<longrightarrow> the (status ev) \<in> set status_values)
       \<longrightarrow> vevent_lines E n ev dflt = Inl (InvalidTransp (the (transp ev))))) \<and>
   (vevent_lines E n ev dflt = Inr ls \<longrightarrow>
      (truthy (status ev) \<longrightarrow>
         the (status ev) \<in> set status_values \<and> u ''STATUS:'' @ the (status ev) \<in> set ls) \<and>
      (truthy (transp ev) \<longrightarrow>
         the (transp ev) \<in> set transp_values \<and> u ''TRANSP:'' @ the (transp ev) \<in> set ls))"
  using vevent_lines_Inl_status [of ev E n dflt] vevent_lines_Inl_transp [of ev E n dflt]
    status_error [of ev E dflt n] transp_error [of ev E dflt n] enum_lines_mem [of E n ev dflt ls]
  by blast


theorem enumerations_checked_witness:
  "truthy (status (example_event\<lparr>status := Some (u ''MAYBE'')\<rparr>)) \<and>
   the (status (example_event\<lparr>status := Some (u ''MAYBE'')\<rparr>)) \<notin> set status_values \<and>
   vevent_lines example_env 0 (example_event\<lparr>status := Some (u ''MAYBE'')\<rparr>) example_defaults
     = Inl (InvalidStatus (u ''MAYBE''))"
proof -
  define ev where "ev = example_event\<lparr>status := Some (u ''MAYBE'')\<rparr>"
  have h1: "truthy (status ev) \<and> the (status ev) \<notin> set status_values"
    unfolding ev_def by code_simp
  have h2: "truthy (date ev) \<and> truthy (summary ev) \<and> match_date example_env (the (date ev)) \<and>
       (truthy (time ev) \<longrightarrow> match_time example_env (the (time ev))) \<and>
       \<not> isl (temporal_lines example_env (the (date ev)) (the (summary ev)) (time ev)
                (tz_of ev example_defaults) (duration_of ev example_defaults))"
    unfolding ev_def by code_simp
  have "vevent_lines example_env 0 ev example_defaults = Inl (InvalidStatus (the (status ev)))"
    using mp [OF conjunct2 [OF mp [OF conjunct1 [OF enumerations_checked] h1]] h2] .
  moreover have "the (status ev) = u ''MAYBE''" unfolding ev_def by simp
  ultimately show ?thesis using h1 unfolding ev_def by simp
qed

text \<open>
  Claim C9 as stated fails for a status that is present and empty: it is not one of the
  three values, and the event is built all the same, without a STATUS line.
\<close>

theorem enumerations_checked_counterexample:
  "status (example_event\<lparr>status := Some []\<rparr>) = Some [] \<and> [] \<notin> set status_values \<and>
   vevent_lines example_env 0 (example_event\<lparr>status := Some []\<rparr>) example_defaults =
     Inr [u ''BEGIN:VEVENT'', u ''UID:launch-2024-03-10-01234567@claude'', u ''DTSTAMP:20240101T120000Z'',
          u ''DTSTART;VALUE=DATE:20240310'', u ''DTEND;VALUE=DATE:20240311'', u ''SUMMARY:Launch'',
          u ''END:VEVENT'']"
  by code_simp

lemma truthy_simps [simp]: "truthy None = False" "truthy (Some []) = False" "truthy (Some (x # xs)) = True"
  by (simp_all add: truthy_def)

lemma vevent_lines_alt:
  "vevent_lines E n ev dflt =
     (if \<not> truthy (date ev) \<or> \<not> truthy (summary ev) then Inl MissingRequired
      else if \<not> match_date E (the (date ev)) then Inl (InvalidDate (the (date ev)))
      else if truthy (time ev) \<and> \<not> match_time E (the (time ev)) then Inl (InvalidTime (the (time ev)))
      else
        (case temporal_lines E (the (date ev)) (the (summary ev)) (time ev) (tz_of ev dflt) (duration_of ev dflt) of
           Inl e \<Rightarrow> Inl e
         | Inr temporal \<Rightarrow>
             if truthy (status ev) \<and> the (status ev) \<notin> set status_values
             then Inl (InvalidStatus (the (status ev)))
             else if truthy (transp ev) \<and> the (transp ev) \<notin> set transp_values
             then Inl (InvalidTransp (the (transp ev)))
             else Inr ([u ''BEGIN:VEVENT'', u ''UID:'' @ generate_uid E n (the (summary ev)) (the (date ev)),
                        u ''DTSTAMP:'' @ utcnow E n] @ temporal @
                       [u ''SUMMARY:'' @ escape_text (the (summary ev))] @ text_lines ev @ enum_lines ev @
                       alarm_lines (reminder_of ev dflt) @ [u ''END:VEVENT''])))"
  by (simp add: vevent_lines_def Let_def enum_lines_def split: sum.splits)

lemma empty_optional:
  "vevent_lines E n (ev\<lparr>description := Some []\<rparr>) dflt = vevent_lines E n (ev\<lparr>description := None\<rparr>) dflt"
  "vevent_lines E n (ev\<lparr>location := Some []\<rparr>) dflt = vevent_lines E n (ev\<lparr>location := None\<rparr>) dflt"
  "vevent_lines E n (ev\<lparr>url := Some []\<rparr>) dflt = vevent_lines E n (ev\<lparr>url := None\<rparr>) dflt"
  "vevent_lines E n (ev\<lparr>categories := Some []\<rparr>) dflt = vevent_lines E n (ev\<lparr>categories := None\<rparr>) dflt"
  "vevent_lines E n (ev\<lparr>status := Some []\<rparr>) dflt = vevent_lines E n (ev\<lparr>status := None\<rparr>) dflt"
  "vevent_lines E n (ev\<lparr>transp := Some []\<rparr>) dflt = vevent_lines E n (ev\<lparr>transp := None\<rparr>) dflt"
  "vevent_lines E n (ev\<lparr>rrule := Some []\<rparr>) dflt = vevent_lines E n (ev\<lparr>rrule := None\<rparr>) dflt"
  by (simp_all add: vevent_lines_alt text_lines_def enum_lines_def tz_of_def reminder_of_def duration_of_def
        cong: sum.case_cong if_cong)

lemma strptime_Inl: "strptime E s = Inl e \<Longrightarrow> e = StrptimeError"
  by (cases "(E, s)" rule: strptime.cases) (auto simp: Let_def split: option.splits if_splits)

lemma temporal_lines_Inl:
  "temporal_lines E dat summ tim tz dur = Inl e \<Longrightarrow>
     e = StrptimeError \<or> e = OverflowError \<or> e = NoTimezone summ"
  by (auto simp: temporal_lines_def add_one_day_def split: option.splits sum.splits if_splits prod.splits
        dest: strptime_Inl)

lemma empty_required:
  "date ev = Some [] \<or> summary ev = Some [] \<Longrightarrow> vevent_lines E n ev dflt = Inl MissingRequired"
  by (auto simp: vevent_lines_def)

lemma absent_required:
  "date ev = None \<or> summary ev = None \<Longrightarrow> vevent_lines E n ev dflt = Inl MissingRequired"
  by (auto simp: vevent_lines_def)

lemma empty_status_unchecked:
  assumes "status ev = Some []"
  shows "vevent_lines E n ev dflt \<noteq> Inl (InvalidStatus s)"
  using assms temporal_lines_Inl [of E "the (date ev)" "the (summary ev)" "time ev" "tz_of ev dflt" "duration_of ev dflt"]
  unfolding vevent_lines_alt
  by (auto split: sum.splits)

text \<open>
  Claim C10, as amended.  The tests on date, summary, description, location, url,
  categories, status, transp and rrule treat an empty value as an absent one: an empty
  date or summary is rejected as a missing required field, as an absent one is; an
  event with one of the optional fields empty builds exactly as the event without that
  field does; with an empty status the enumeration check is passed over and no STATUS
  line is produced.
\<close>

theorem empty_value_is_absence:
  "(date ev = Some [] \<or> summary ev = Some [] \<longrightarrow> vevent_lines E n ev dflt = Inl MissingRequired) \<and>
   (date ev = None \<or> summary ev = None \<longrightarrow> vevent_lines E n ev dflt = Inl MissingRequired) \<and>
   vevent_lines E n (ev\<lparr>description := Some []\<rparr>) dflt = vevent_lines E n (ev\<lparr>description := None\<rparr>) dflt \<and>
   vevent_lines E n (ev\<lparr>location := Some []\<rparr>) dflt = vevent_lines E n (ev\<lparr>location := None\<rparr>) dflt \<and>
   vevent_lines E n (ev\<lparr>url := Some []\<rparr>) dflt = vevent_lines E n (ev\<lparr>url := None\<rparr>) dflt \<and>
   vevent_lines E n (ev\<lparr>categories := Some []\<rparr>) dflt = vevent_lines E n (ev\<lparr>categories := None\<rparr>) dflt \<and>
   vevent_lines E n (ev\<lparr>status := Some []\<rparr>) dflt = vevent_lines E n (ev\<lparr>status := None\<rparr>) dflt \<and>
   vevent_lines E n (ev\<lparr>transp := Some []\<rparr>) dflt = vevent_lines E n (ev\<lparr>transp := None\<rparr>) dflt \<and>
   vevent_lines E n (ev\<lparr>rrule := Some []\<rparr>) dflt = vevent_lines E n (ev\<lparr>rrule := None\<rparr>) dflt \<and>
   (status ev = Some [] \<longrightarrow>
      (\<forall>s. vevent_lines E n ev dflt \<noteq> Inl (InvalidStatus s)) \<and>
      (\<forall>ls. vevent_lines E n ev dflt = Inr ls \<longrightarrow> u ''STATUS'' \<notin> set (map prop_name ls)))"
proof -
  have "status ev = Some [] \<longrightarrow>
      (\<forall>ls. vevent_lines E n ev dflt = Inr ls \<longrightarrow> u ''STATUS'' \<notin> set (map prop_name ls))"
    using status_line_iff [of E n ev dflt] by simp
  then show ?thesis
    using empty_required [of ev E n dflt] absent_required [of ev E n dflt]
      empty_status_unchecked [of ev E n dflt]
    by (simp only: empty_optional) blast
qed

theorem empty_value_is_absence_witness:
  "(date (example_event\<lparr>summary := Some []\<rparr>) = Some [] \<or>
    summary (example_event\<lparr>summary := Some []\<rparr>) = Some []) \<and>
   vevent_lines example_env 0 (example_event\<lparr>summary := Some []\<rparr>) example_defaults
     = Inl MissingRequired \<and>
   status (example_event\<lparr>status := Some []\<rparr>) = Some [] \<and>
   (\<forall>s. vevent_lines example_env 0 (example_event\<lparr>status := Some []\<rparr>) example_defaults
          \<noteq> Inl (InvalidStatus s))"
proof -
  have h: "date (example_event\<lparr>summary := Some []\<rparr>) = Some [] \<or>
           summary (example_event\<lparr>summary := Some []\<rparr>) = Some []"
    by simp
  have a: "vevent_lines example_env 0 (example_event\<lparr>summary := Some []\<rparr>) example_defaults
             = Inl MissingRequired"
    using mp [OF conjunct1 [OF empty_value_is_absence] h] .
  have s: "status (example_event\<lparr>status := Some []\<rparr>) = Some []"
    by simp
  have "\<forall>s. vevent_lines example_env 0 (example_event\<lparr>status := Some []\<rparr>) example_defaults
          \<noteq> Inl (InvalidStatus s)"
    using empty_value_is_absence [of "example_event\<lparr>status := Some []\<rparr>" example_env 0 example_defaults] s
    by blast
  with h a s show ?thesis by (intro conjI)
qed

text \<open>
  Claim C10 as stated, for every presence test, fails where the program tests for
  \<open>None\<close> or for the key: an event with an empty time zone is refused although the
  document has a default, which an event without time zone would get; and an event
  with an empty time is built as a timed event, not as the all-day event that an
  absent time makes.
\<close>

theorem empty_value_is_absence_counterexample:
  "vevent_lines example_env 0 (sync_event\<lparr>timezone := Value []\<rparr>) utc_defaults
     \<noteq> vevent_lines example_env 0 (sync_event\<lparr>timezone := Absent\<rparr>) utc_defaults \<and>
   vevent_lines example_env 0 (sync_event\<lparr>timezone := Value []\<rparr>) utc_defaults
     = Inl (NoTimezone (u ''Sync'')) \<and>
   vevent_lines example_env 0 (sync_event\<lparr>time := Some []\<rparr>) utc_defaults
     \<noteq> vevent_lines example_env 0 (sync_event\<lparr>time := None\<rparr>) utc_defaults"
  by code_simp


section \<open>Validated events and all-day events\<close>

lemma temporal_lines_allday_iso:
  assumes "valid_date y m d" "(y, m, d) \<noteq> (9999, 12, 31)"
  shows "temporal_lines E (iso_date y m d) summ None tz dur =
           Inr [u ''DTSTART;VALUE=DATE:'' @ pad4 y @ pad2 m @ pad2 d,
                u ''DTEND;VALUE=DATE:'' @
                  strftime_Ymd (if d < days_in_month y m then (y, m, d + 1)
                                else if m < 12 then (y, m + 1, 1) else (y + 1, 1, 1))]"
proof -
  have "strptime E (iso_date y m d) = Inr (y, m, d)"
    using assms(1) unfolding valid_date_def by (intro strptime_iso) simp_all
  then show ?thesis
    by (simp only: temporal_lines_allday add_one_day_cases [OF assms] format_date_iso sum.case)
qed

lemma build_vevent_Inr: "vevent_lines E n ev dflt = Inr ls \<Longrightarrow> build_vevent E n ev dflt = Inr (join CRLF ls)"
  by (simp add: build_vevent_def)

text \<open>
  Claim C3, as amended.  An event record that satisfies the validator's rules (date and
  summary present and not empty, date and time of the required shapes, a time zone
  whenever there is a time, status and transp in their enumerations) is built without
  error, provided that, when it has no time, its date is a real calendar date from
  0001-01-01 to 9999-12-30 written as YYYY-MM-DD.
\<close>

theorem validated_event_builds:
  assumes "truthy (date ev)" and "truthy (summary ev)" and "match_date E (the (date ev))"
    and "time ev \<noteq> None \<longrightarrow> match_time E (the (time ev))"
    and "time ev \<noteq> None \<longrightarrow> truthy (tz_of ev dflt)"
    and "status ev \<noteq> None \<longrightarrow> the (status ev) \<in> set status_values"
    and "transp ev \<noteq> None \<longrightarrow> the (transp ev) \<in> set transp_values"
    and "time ev = None \<longrightarrow>
           (\<exists>y m d. the (date ev) = iso_date y m d \<and> valid_date y m d \<and> (y, m, d) \<noteq> (9999, 12, 31))"
  shows "\<exists>out. build_vevent E n ev dflt = Inr out"
proof -
  have t: "\<exists>temporal. temporal_lines E (the (date ev)) (the (summary ev)) (time ev) (tz_of ev dflt)
             (duration_of ev dflt) = Inr temporal"
  proof (cases "time ev")
    case None
    with assms(8) obtain y m d where
      "the (date ev) = iso_date y m d" "valid_date y m d" "(y, m, d) \<noteq> (9999, 12, 31)"
      by blast
    then show ?thesis using None temporal_lines_allday_iso [of y m d E] by simp
  next
    case (Some t)
    then show ?thesis using assms(5) by (simp add: temporal_lines_timed)
  qed
  have s: "truthy (status ev) \<longrightarrow> the (status ev) \<in> set status_values"
    "truthy (transp ev) \<longrightarrow> the (transp ev) \<in> set transp_values"
    "truthy (time ev) \<longrightarrow> match_time E (the (time ev))"
    using assms(4,6,7) by (auto simp: truthy_def)
  from t obtain temporal where
    "temporal_lines E (the (date ev)) (the (summary ev)) (time ev) (tz_of ev dflt)
             (duration_of ev dflt) = Inr temporal" by blast
  then have "\<exists>ls. vevent_lines E n ev dflt = Inr ls"
    using assms(1,2,3) s unfolding vevent_lines_Inr_iff by blast
  then show ?thesis using build_vevent_Inr by blast
qed

theorem validated_event_builds_witness:
  "truthy (date example_event) \<and> truthy (summary example_event) \<and>
   match_date example_env (the (date example_event)) \<and>
   the (date example_event) = iso_date 2024 3 10 \<and> valid_date 2024 3 10 \<and>
   time example_event = None \<and> status example_event = None \<and> transp example_event = None \<and>
   (\<exists>out. build_vevent example_env 0 example_event example_defaults = Inr out)"
proof -
  have h: "truthy (date example_event)" "truthy (summary example_event)"
    "match_date example_env (the (date example_event))"
    by code_simp+
  have d: "the (date example_event) = iso_date 2024 3 10" "valid_date 2024 3 10"
    by (simp_all add: example_event_def iso_date_def pad4_def pad2_def u_def valid_date_def
          days_in_month_def)
  have n: "time example_event = None" "status example_event = None" "transp example_event = None"
    by (simp_all add: example_event_def)
  have "(2024::nat, 3::nat, 10::nat) \<noteq> (9999, 12, 31)" by simp
  with d have e: "time example_event = None \<longrightarrow>
      (\<exists>y m d. the (date example_event) = iso_date y m d \<and> valid_date y m d \<and>
         (y, m, d) \<noteq> (9999, 12, 31))"
    by blast
  have "\<exists>out. build_vevent example_env 0 example_event example_defaults = Inr out"
    using validated_event_builds [OF h _ _ _ _ e] n by simp
  with h d n show ?thesis by (intro conjI)
qed

text \<open>
  Claim C3 as stated fails for an all-day event dated 2024-02-30: the record passes
  every rule of the validator, and the parsing of the date then raises.
\<close>

theorem validated_event_builds_counterexample:
  "truthy (date impossible_date_event) \<and> truthy (summary impossible_date_event) \<and>
   match_date example_env (the (date impossible_date_event)) \<and>
   time impossible_date_event = None \<and> status impossible_date_event = None \<and>
   transp impossible_date_event = None \<and>
   build_vevent example_env 0 impossible_date_event example_defaults = Inl StrptimeError"
  by code_simp

text \<open>
  Claim C6, as amended.  An all-day event whose date is a real calendar date from
  1000-01-01 to 9999-12-30, and which passes the other checks, is built with the start
  token equal to the date without its hyphens and the end token equal to the next
  calendar day, written with four, two and two digits: the day whose number is one
  more, that is the next day of the month, or the first of the next month after the
  last day of a month (the 28th or the 29th in February, by the leap-year rule), or the
  first of January after 31 December.
\<close>

theorem allday_tokens:
  assumes "date ev = Some (iso_date y m d)" and "time ev = None"
    and "valid_date y m d" and "1000 \<le> y" and "(y, m, d) \<noteq> (9999, 12, 31)"
    and "truthy (summary ev)"
    and "truthy (status ev) \<longrightarrow> the (status ev) \<in> set status_values"
    and "truthy (transp ev) \<longrightarrow> the (transp ev) \<in> set transp_values"
  shows "\<exists>ls y' m' d'.
           vevent_lines E n ev dflt = Inr ls \<and>
           ls ! 3 = u ''DTSTART;VALUE=DATE:'' @ pad4 y @ pad2 m @ pad2 d \<and>
           ls ! 4 = u ''DTEND;VALUE=DATE:'' @ pad4 y' @ pad2 m' @ pad2 d' \<and>
           valid_date y' m' d' \<and> day_number y' m' d' = day_number y m d + 1 \<and>
           (y', m', d') = (if d < days_in_month y m then (y, m, d + 1)
                           else if m < 12 then (y, m + 1, 1) else (y + 1, 1, 1))"
proof -
  define nd where "nd = (if d < days_in_month y m then (y, m, d + 1)
                           else if m < 12 then (y, m + 1, 1) else (y + 1, 1, 1))"
  obtain y' m' d' where nd: "nd = (y', m', d')" by (cases nd) auto
  have a: "add_one_day (y, m, d) = Inr (y', m', d')"
    using add_one_day_cases [OF assms(3,5)] nd unfolding nd_def by simp
  from add_one_day_next [OF assms(3,5)] a
  have v: "valid_date y' m' d'" "day_number y' m' d' = day_number y m d + 1" by auto
  have "y' = y \<or> y' = y + 1" using nd unfolding nd_def by (auto split: if_splits)
  then have "1000 \<le> y'" using assms(4) by auto
  moreover have "y' \<le> 9999" using v(1) by (simp add: valid_date_def)
  ultimately have year: "digits y' = pad4 y'" by (rule digits_pad4)
  define temporal where "temporal = [u ''DTSTART;VALUE=DATE:'' @ pad4 y @ pad2 m @ pad2 d,
                u ''DTEND;VALUE=DATE:'' @ pad4 y' @ pad2 m' @ pad2 d']"
  have t: "temporal_lines E (the (date ev)) (the (summary ev)) (time ev) (tz_of ev dflt) (duration_of ev dflt)
             = Inr temporal"
    using temporal_lines_allday_iso [OF assms(3,5), of E] assms(1,2) nd year
    unfolding temporal_def nd_def by (simp add: strftime_Ymd_def)
  define ls where "ls = [u ''BEGIN:VEVENT'', u ''UID:'' @ generate_uid E n (the (summary ev)) (the (date ev)),
              u ''DTSTAMP:'' @ utcnow E n] @ temporal @
             [u ''SUMMARY:'' @ escape_text (the (summary ev))] @ text_lines ev @ enum_lines ev @
             alarm_lines (reminder_of ev dflt) @ [u ''END:VEVENT'']"
  have md1: "match_date E (the (date ev))" using assms(1) by (simp add: match_date_iso)
  have md2: "truthy (date ev)" using assms(1) by (simp add: truthy_def iso_date_def pad4_def)
  have md3: "\<not> truthy (time ev)" using assms(2) by (simp add: truthy_def)
  note md = md1 md2 md3
  have b: "vevent_lines E n ev dflt = Inr ls"
    unfolding vevent_lines_Inr_iff using md assms(6,7,8) t ls_def by blast
  have l: "ls ! 3 = u ''DTSTART;VALUE=DATE:'' @ pad4 y @ pad2 m @ pad2 d"
    "ls ! 4 = u ''DTEND;VALUE=DATE:'' @ pad4 y' @ pad2 m' @ pad2 d'"
    unfolding ls_def temporal_def by (simp_all add: numeral_3_eq_3 numeral_eq_Suc)
  have e: "(y', m', d') = (if d < days_in_month y m then (y, m, d + 1)
                           else if m < 12 then (y, m + 1, 1) else (y + 1, 1, 1))"
    using nd unfolding nd_def by simp
  show ?thesis
    by (rule exI [of _ ls], rule exI [of _ y'], rule exI [of _ m'], rule exI [of _ d'])
       (intro conjI b l v e)
qed

theorem allday_tokens_witness:
  "date leap_day_event = Some (iso_date 2024 2 29) \<and> time leap_day_event = None \<and>
   valid_date 2024 2 29 \<and> (1000::nat) \<le> 2024 \<and> truthy (summary leap_day_event) \<and>
   (\<exists>ls. vevent_lines example_env 0 leap_day_event example_defaults = Inr ls \<and>
         ls ! 3 = u ''DTSTART;VALUE=DATE:20240229'' \<and> ls ! 4 = u ''DTEND;VALUE=DATE:20240301'')"
proof -
  have h: "date leap_day_event = Some (iso_date 2024 2 29)" "time leap_day_event = None"
    "valid_date 2024 2 29" "(1000::nat) \<le> 2024"
    "(2024::nat, 2::nat, 29::nat) \<noteq> (9999, 12, 31)" "truthy (summary leap_day_event)"
    "truthy (status leap_day_event) \<longrightarrow> the (status leap_day_event) \<in> set status_values"
    "truthy (transp leap_day_event) \<longrightarrow> the (transp leap_day_event) \<in> set transp_values"
    by (simp_all add: leap_day_event_def example_event_def iso_date_def pad4_def pad2_def u_def
          truthy_def valid_date_def days_in_month_def is_leap_def)
  from allday_tokens [OF h, of example_env 0 example_defaults] obtain ls y' m' d' where
    r: "vevent_lines example_env 0 leap_day_event example_defaults = Inr ls"
      "ls ! 3 = u ''DTSTART;VALUE=DATE:'' @ pad4 2024 @ pad2 2 @ pad2 29"
      "ls ! 4 = u ''DTEND;VALUE=DATE:'' @ pad4 y' @ pad2 m' @ pad2 d'"
      "(y', m', d') = (if 29 < days_in_month 2024 2 then (2024::nat, 2::nat, 29 + 1::nat)
                           else if (2::nat) < 12 then (2024, 2 + 1, 1) else (2024 + 1, 1, 1))"
    by blast
  have "(if 29 < days_in_month 2024 2 then (2024::nat, 2::nat, 29 + 1::nat)
                           else if (2::nat) < 12 then (2024, 2 + 1, 1) else (2024 + 1, 1, 1))
          = (2024, 3, 1)"
    by (simp add: days_in_month_def is_leap_def)
  with r(4) have y: "y' = 2024" "m' = 3" "d' = 1" by simp_all
  have p: "u ''DTSTART;VALUE=DATE:'' @ pad4 2024 @ pad2 2 @ pad2 29 = u ''DTSTART;VALUE=DATE:20240229''"
    "u ''DTEND;VALUE=DATE:'' @ pad4 2024 @ pad2 3 @ pad2 1 = u ''DTEND;VALUE=DATE:20240301''"
    by (simp_all add: pad4_def pad2_def u_def)
  have "\<exists>ls. vevent_lines example_env 0 leap_day_event example_defaults = Inr ls \<and>
         ls ! 3 = u ''DTSTART;VALUE=DATE:20240229'' \<and> ls ! 4 = u ''DTEND;VALUE=DATE:20240301''"
    using r(1,2,3) unfolding y p by (intro exI [of _ ls] conjI)
  with h(1,2,3,4,6) show ?thesis by (intro conjI)
qed

text \<open>
  Claim C6 as stated fails at both ends of the calendar.  For the valid calendar date
  9999-12-31 the library has no next day, and the addition of one day raises.  For the
  valid calendar date 0001-01-01 the end token is printed without the leading zeros of
  the year: it is 10102, not the next calendar day in the form of the start token.
\<close>

theorem allday_tokens_counterexample:
  "date last_day_event = Some (iso_date 9999 12 31) \<and> time last_day_event = None \<and>
   valid_date 9999 12 31 \<and>
   vevent_lines example_env 0 last_day_event example_defaults = Inl OverflowError \<and>
   date first_day_event = Some (iso_date 1 1 1) \<and> time first_day_event = None \<and>
   valid_date 1 1 1 \<and>
   vevent_lines example_env 0 first_day_event example_defaults =
     Inr [u ''BEGIN:VEVENT'', u ''UID:launch-0001-01-01-01234567@claude'', u ''DTSTAMP:20240101T120000Z'',
          u ''DTSTART;VALUE=DATE:00010101'', u ''DTEND;VALUE=DATE:10102'', u ''SUMMARY:Launch'',
          u ''END:VEVENT'']"
proof -
  have "date last_day_event = Some (iso_date 9999 12 31)"
    by (simp add: last_day_event_def example_event_def iso_date_def pad4_def pad2_def u_def)
  moreover have "time last_day_event = None"
    by (simp add: last_day_event_def example_event_def)
  moreover have "valid_date 9999 12 31"
    by (simp add: valid_date_def days_in_month_def)
  moreover have "vevent_lines example_env 0 last_day_event example_defaults = Inl OverflowError"
    by code_simp
  moreover have "date first_day_event = Some (iso_date 1 1 1)"
    by (simp add: first_day_event_def example_event_def iso_date_def pad4_def pad2_def u_def)
  moreover have "time first_day_event = None"
    by (simp add: first_day_event_def example_event_def)
  moreover have "valid_date 1 1 1"
    by (simp add: valid_date_def days_in_month_def)
  moreover have "vevent_lines example_env 0 first_day_event example_defaults =
     Inr [u ''BEGIN:VEVENT'', u ''UID:launch-0001-01-01-01234567@claude'', u ''DTSTAMP:20240101T120000Z'',
          u ''DTSTART;VALUE=DATE:00010101'', u ''DTEND;VALUE=DATE:10102'', u ''SUMMARY:Launch'',
          u ''END:VEVENT'']"
    by code_simp
  ultimately show ?thesis by (intro conjI)
qed

section \<open>Joining, splitting and unfolding lines\<close>

lemma join_append:
  "a \<noteq> [] \<Longrightarrow> b \<noteq> [] \<Longrightarrow> join sep (a @ b) = join sep a @ sep @ join sep b"
proof (induction sep a rule: join.induct)
  case (2 sep x)
  then show ?case by (cases b) auto
qed auto

lemma join_Cons: "ys \<noteq> [] \<Longrightarrow> join sep (x # ys) = x @ sep @ join sep ys"
  by (cases ys) auto

lemma join_block:
  assumes "b \<noteq> []"
  shows "join sep (xs @ [join sep b] @ ys) = join sep (xs @ b @ ys)"
proof -
  have 1: "join sep ([join sep b] @ ys) = join sep (b @ ys)"
  proof (cases "ys = []")
    case True
    then show ?thesis by simp
  next
    case False
    then show ?thesis using assms by (simp add: join_Cons join_append [of b ys])
  qed
  show ?thesis
  proof (cases "xs = []")
    case True
    then show ?thesis using 1 by simp
  next
    case False
    have "join sep (xs @ ([join sep b] @ ys)) = join sep xs @ sep @ join sep ([join sep b] @ ys)"
      using False by (intro join_append) simp_all
    also have "\<dots> = join sep xs @ sep @ join sep (b @ ys)" using 1 by simp
    also have "\<dots> = join sep (xs @ (b @ ys))"
      using False assms by (intro join_append [symmetric]) simp_all
    finally show ?thesis by simp
  qed
qed

lemma split_line:
  "\<not> has_crlf a \<Longrightarrow> split CRLF (a @ CRLF @ r) = a # split CRLF r"
  by (induction a rule: has_crlf.induct) (auto simp: CRLF_def CR_def LF_def)

lemma split_none: "\<not> has_crlf a \<Longrightarrow> split CRLF a = [a]"
  by (induction a rule: has_crlf.induct) (auto simp: CRLF_def CR_def LF_def)

lemma split_join:
  "ls \<noteq> [] \<Longrightarrow> \<forall>l \<in> set ls. \<not> has_crlf l \<Longrightarrow> split CRLF (join CRLF ls) = ls"
proof (induction CRLF ls rule: join.induct)
  case (3 x y ys)
  then show ?case using split_line [of x "join CRLF (y # ys)"] by simp
qed (simp_all add: split_none)

lemma replace_crlf_line:
  "\<not> has_crlf a \<Longrightarrow> \<not> prefix [SP] r \<Longrightarrow>
     replace (CRLF @ [SP]) [] (a @ CRLF @ r) = a @ CRLF @ replace (CRLF @ [SP]) [] r"
  by (induction a rule: has_crlf.induct) (auto simp: CRLF_def CR_def LF_def SP_def prefix_Cons)

lemma replace_folded_line:
  assumes "chunks \<noteq> []" and "\<forall>c \<in> set chunks. \<not> has_crlf c" and "\<not> prefix [SP] r"
  shows "replace (CRLF @ [SP]) [] (join (CRLF @ [SP]) chunks @ CRLF @ r)
           = concat chunks @ CRLF @ replace (CRLF @ [SP]) [] r"
  using assms
proof (induction "CRLF @ [SP]" chunks rule: join.induct)
  case 1
  then show ?case by simp
next
  case (2 x)
  then show ?case by (simp add: replace_crlf_line)
next
  case (3 x y ys)
  have "replace (CRLF @ [SP]) [] (x @ CRLF @ [SP] @ (join (CRLF @ [SP]) (y # ys) @ CRLF @ r))
          = x @ replace (CRLF @ [SP]) [] (join (CRLF @ [SP]) (y # ys) @ CRLF @ r)"
    using "3.prems"(2) by (intro replace_sep_chunk) simp
  then show ?case using 3 by simp
qed


lemma fold_all_simps:
  "fold_all [] = Inr []"
  "fold_all (l # ls) =
     (case fold_line l of
        Inl e \<Rightarrow> Inl e
      | Inr f \<Rightarrow> (case fold_all ls of Inl e \<Rightarrow> Inl e | Inr fs \<Rightarrow> Inr (f # fs)))"
  unfolding fold_all_def by simp_all

lemma fold_all_Inr:
  "fold_all ls = Inr fs \<Longrightarrow> list_all2 (\<lambda>l f. fold_line l = Inr f) ls fs"
  by (induction ls arbitrary: fs) (auto simp: fold_all_simps split: sum.splits)

lemma folded_no_sp:
  assumes "fold_line l = Inr f" and "\<not> prefix [SP] l"
  shows "\<not> prefix [SP] f" and "\<not> prefix [SP] (f @ CRLF @ x)"
proof -
  from fold_line_joined [OF assms(1)] obtain chunks where
    c: "f = join (CRLF @ [SP]) chunks" "concat chunks = l" "chunks \<noteq> []" by blast
  then obtain c0 cs where cs: "chunks = c0 # cs" by (cases chunks) auto
  show "\<not> prefix [SP] f" "\<not> prefix [SP] (f @ CRLF @ x)"
    using assms(2) c(1,2) unfolding cs
    by (cases c0; cases cs; auto simp: CRLF_def CR_def SP_def prefix_Cons)+
qed

lemma unfold_folded:
  assumes "fold_line l = Inr f" and "\<not> has_crlf l"
  shows "unfold_text f = l"
proof -
  from fold_line_joined [OF assms(1)] obtain chunks where
    c: "f = join (CRLF @ [SP]) chunks" "concat chunks = l" by blast
  have "\<forall>c \<in> set chunks. \<not> has_crlf c" using assms(2) c(2) has_crlf_concat by blast
  then show ?thesis using c by (simp add: unfold_join)
qed

lemma unfold_document:
  assumes "list_all2 (\<lambda>l f. fold_line l = Inr f) ls fs"
    and "\<forall>l \<in> set ls. \<not> has_crlf l \<and> \<not> prefix [SP] l"
  shows "unfold_text (join CRLF fs) = join CRLF ls"
  using assms
proof (induction rule: list_all2_induct)
  case Nil
  then show ?case by (simp add: unfold_text_def)
next
  case (Cons l ls f fs)
  show ?case
  proof (cases fs)
    case Nil
    then have "ls = []" using Cons.hyps(2) by simp
    then show ?thesis using Nil unfold_folded [OF Cons.hyps(1)] Cons.prems by simp
  next
    case (Cons f' fs')
    then obtain l' ls' where ls: "ls = l' # ls'" and f': "fold_line l' = Inr f'"
      using Cons.hyps(2) by (cases ls) auto
    from fold_line_joined [OF Cons.hyps(1)] obtain chunks where
      c: "f = join (CRLF @ [SP]) chunks" "concat chunks = l" "chunks \<noteq> []" by blast
    have nc: "\<forall>c \<in> set chunks. \<not> has_crlf c" using Cons.prems c(2) has_crlf_concat by fastforce
    have nsp: "\<not> prefix [SP] (join CRLF (f' # fs'))"
      using folded_no_sp [OF f'] Cons.prems ls by (cases fs') auto
    have "unfold_text (join CRLF (f # f' # fs'))
            = replace (CRLF @ [SP]) [] (join (CRLF @ [SP]) chunks @ CRLF @ join CRLF (f' # fs'))"
      by (simp add: unfold_text_def c(1))
    also have "\<dots> = concat chunks @ CRLF @ replace (CRLF @ [SP]) [] (join CRLF (f' # fs'))"
      using c(3) nc nsp by (rule replace_folded_line)
    also have "\<dots> = l @ CRLF @ join CRLF (l' # ls')"
      using Cons.IH Cons.prems c(2) unfolding \<open>fs = f' # fs'\<close> ls by (simp add: unfold_text_def)
    finally show ?thesis unfolding \<open>fs = f' # fs'\<close> ls by simp
  qed
qed

lemma fold_content_lines:
  assumes "fold_content (join CRLF ls) = Inr out" and "ls \<noteq> []"
    and "\<forall>l \<in> set ls. \<not> has_crlf l \<and> \<not> prefix [SP] l"
  shows "logical_lines out = ls"
    and "\<exists>fs. list_all2 (\<lambda>l f. fold_line l = Inr f) ls fs \<and> out = join CRLF fs"
proof -
  have sp: "split CRLF (join CRLF ls) = ls" using assms(2,3) by (intro split_join) auto
  from assms(1) obtain fs where fs: "fold_all ls = Inr fs" "out = join CRLF fs"
    unfolding fold_content_def Let_def sp by (auto split: sum.splits)
  have la: "list_all2 (\<lambda>l f. fold_line l = Inr f) ls fs" using fs(1) by (rule fold_all_Inr)
  then show "\<exists>fs. list_all2 (\<lambda>l f. fold_line l = Inr f) ls fs \<and> out = join CRLF fs"
    using fs(2) by blast
  have "unfold_text out = join CRLF ls" unfolding fs(2) using la assms(3) by (rule unfold_document)
  then show "logical_lines out = ls" using sp by (simp add: logical_lines_def)
qed


section \<open>The document\<close>

lemma events_loop_Inl:
  assumes "i < length evs" and "build_vevent E (n + i) (evs ! i) d = Inl e"
    and "\<forall>j<i. \<not> isl (build_vevent E (n + j) (evs ! j) d)"
  shows "events_loop E n evs d lines = Inl e"
  using assms
proof (induction evs arbitrary: n i lines)
  case Nil
  then show ?case by simp
next
  case (Cons ev evs)
  show ?case
  proof (cases i)
    case 0
    then show ?thesis using Cons.prems(2) by simp
  next
    case (Suc k)
    have "\<not> isl (build_vevent E (n + 0) ((ev # evs) ! 0) d)" using Cons.prems(3) Suc by blast
    then obtain b where b: "build_vevent E n ev d = Inr b"
      by (cases "build_vevent E n ev d") auto
    have 1: "k < length evs" using Cons.prems(1) Suc by simp
    have 2: "build_vevent E (Suc n + k) (evs ! k) d = Inl e" using Cons.prems(2) Suc by simp
    have 3: "\<forall>j<k. \<not> isl (build_vevent E (Suc n + j) (evs ! j) d)"
    proof (intro allI impI)
      fix j assume "j < k"
      then have "Suc j < i" using Suc by simp
      with Cons.prems(3) have "\<not> isl (build_vevent E (n + Suc j) ((ev # evs) ! Suc j) d)" by blast
      then show "\<not> isl (build_vevent E (Suc n + j) (evs ! j) d)" by simp
    qed
    show ?thesis using b Cons.IH [OF 1 2 3] by simp
  qed
qed

lemma events_loop_some_Inl:
  assumes "i < length evs" and "isl (build_vevent E (n + i) (evs ! i) d)"
  shows "isl (events_loop E n evs d lines)"
  using assms
proof (induction evs arbitrary: n i lines)
  case Nil
  then show ?case by simp
next
  case (Cons ev evs)
  show ?case
  proof (cases "build_vevent E n ev d")
    case (Inl e)
    then show ?thesis by simp
  next
    case (Inr b)
    then obtain k where k: "i = Suc k" using Cons.prems(2) by (cases i) auto
    have "isl (events_loop E (Suc n) evs d (lines @ [b]))"
      using Cons.IH [of k "Suc n"] Cons.prems k by simp
    then show ?thesis using Inr by simp
  qed
qed

lemma generate_ics_empty:
  "events data = None \<or> events data = Some [] \<Longrightarrow> generate_ics E data = Inl EmptyEvents"
  by (auto simp: generate_ics_def truthy_def)

lemma generate_ics_first_error:
  assumes "events data = Some evs" and "i < length evs"
    and "build_vevent E i (evs ! i) (make_defaults data) = Inl e"
    and "\<forall>j<i. \<not> isl (build_vevent E j (evs ! j) (make_defaults data))"
  shows "generate_ics E data = Inl e"
proof -
  have "evs \<noteq> []" using assms(2) by auto
  moreover have "events_loop E 0 evs (make_defaults data) calendar_header = Inl e"
    using events_loop_Inl [of i evs E 0 "make_defaults data" e calendar_header] assms(2,3,4) by simp
  ultimately show ?thesis using assms(1) by (simp add: generate_ics_def truthy_def)
qed

lemma generate_ics_some_error:
  assumes "events data = Some evs" and "i < length evs"
    and "isl (build_vevent E i (evs ! i) (make_defaults data))"
  shows "isl (generate_ics E data)"
proof -
  have "isl (events_loop E 0 evs (make_defaults data) calendar_header)"
    using events_loop_some_Inl [of i evs E 0 "make_defaults data" calendar_header] assms(2,3) by simp
  then show ?thesis using assms(1)
    by (cases "events_loop E 0 evs (make_defaults data) calendar_header")
       (auto simp: generate_ics_def)
qed

text \<open>
  Claim C8.  Generation fails with the empty-events error when the event sequence is
  absent or empty.  When the build of any record fails, generation fails as a whole:
  its result is an error and no text.  The error is that of the first failing record
  in input order.
\<close>

theorem generate_ics_fails_whole:
  "(events data = None \<or> events data = Some [] \<longrightarrow> generate_ics E data = Inl EmptyEvents) \<and>
   (events data = Some evs \<and> i < length evs \<and>
    isl (build_vevent E i (evs ! i) (make_defaults data)) \<longrightarrow> isl (generate_ics E data)) \<and>
   (events data = Some evs \<and> i < length evs \<and>
    build_vevent E i (evs ! i) (make_defaults data) = Inl e \<and>
    (\<forall>j<i. \<not> isl (build_vevent E j (evs ! j) (make_defaults data))) \<longrightarrow>
    generate_ics E data = Inl e)"
proof (intro conjI impI)
  assume "events data = None \<or> events data = Some []"
  then show "generate_ics E data = Inl EmptyEvents" by (rule generate_ics_empty)
next
  assume "events data = Some evs \<and> i < length evs \<and>
    isl (build_vevent E i (evs ! i) (make_defaults data))"
  then show "isl (generate_ics E data)" using generate_ics_some_error by (elim conjE)
next
  assume "events data = Some evs \<and> i < length evs \<and>
    build_vevent E i (evs ! i) (make_defaults data) = Inl e \<and>
    (\<forall>j<i. \<not> isl (build_vevent E j (evs ! j) (make_defaults data)))"
  then show "generate_ics E data = Inl e" using generate_ics_first_error by (elim conjE)
qed


theorem generate_ics_fails_whole_witness:
  "events failing_document = Some [example_event, maybe_event, impossible_date_event] \<and>
   (1::nat) < length [example_event, maybe_event, impossible_date_event] \<and>
   build_vevent example_env 1 ([example_event, maybe_event, impossible_date_event] ! 1)
     (make_defaults failing_document) = Inl (InvalidStatus (u ''MAYBE'')) \<and>
   \<not> isl (build_vevent example_env 0 ([example_event, maybe_event, impossible_date_event] ! 0)
            (make_defaults failing_document)) \<and>
   generate_ics example_env failing_document = Inl (InvalidStatus (u ''MAYBE''))"
proof -
  have h1: "events failing_document = Some [example_event, maybe_event, impossible_date_event]"
    by (simp add: failing_document_def)
  have h2: "(1::nat) < length [example_event, maybe_event, impossible_date_event]"
    by simp
  have h3: "build_vevent example_env 1 ([example_event, maybe_event, impossible_date_event] ! 1)
     (make_defaults failing_document) = Inl (InvalidStatus (u ''MAYBE''))"
    by code_simp
  have h0: "\<not> isl (build_vevent example_env 0 ([example_event, maybe_event, impossible_date_event] ! 0)
                     (make_defaults failing_document))"
    by code_simp
  then have h4: "\<forall>j<1. \<not> isl (build_vevent example_env j ([example_event, maybe_event, impossible_date_event] ! j)
                     (make_defaults failing_document))"
    by simp
  have "generate_ics example_env failing_document = Inl (InvalidStatus (u ''MAYBE''))"
    using conjunct2 [OF conjunct2 [OF generate_ics_fails_whole]] h1 h2 h3 h4 by blast
  with h1 h2 h3 h0 show ?thesis by (intro conjI)
qed

section \<open>The structure of the generated text\<close>

lemma plain_lit:
  "plain (u ''UID:'' @ x)" "plain (u ''DTSTAMP:'' @ x)" "plain (u ''DTSTART;VALUE=DATE:'' @ x)"
  "plain (u ''DTEND;VALUE=DATE:'' @ x)" "plain (u ''DTSTART;TZID='' @ x)" "plain (u ''DURATION:'' @ x)"
  "plain (u ''SUMMARY:'' @ x)" "plain (u ''DESCRIPTION:'' @ x)" "plain (u ''LOCATION:'' @ x)"
  "plain (u ''URL:'' @ x)" "plain (u ''CATEGORIES:'' @ x)" "plain (u ''STATUS:'' @ x)"
  "plain (u ''TRANSP:'' @ x)" "plain (u ''RRULE:'' @ x)" "plain (u ''TRIGGER:'' @ x)"
  "plain (u ''BEGIN:VALARM'')" "plain (u ''ACTION:DISPLAY'')" "plain (u ''DESCRIPTION:Reminder'')"
  "plain (u ''END:VALARM'')"
  by (simp_all add: plain_def u_def SP_def)

lemma block_lines_plain:
  "\<forall>l \<in> set (text_lines ev). plain l"
  "\<forall>l \<in> set (enum_lines ev). plain l"
  "\<forall>l \<in> set (alarm_lines r). plain l"
  by (auto simp: text_lines_def enum_lines_def alarm_lines_def plain_lit)

lemma temporal_lines_plain:
  "temporal_lines E dat summ tim tz dur = Inr temporal \<Longrightarrow> \<forall>l \<in> set temporal. plain l"
  by (cases tim)
     (auto simp: temporal_lines_allday temporal_lines_timed plain_lit split: sum.splits if_splits)


lemma subseq_temporal:
  "temporal_lines E dat summ tim tz dur = Inr temporal \<Longrightarrow>
     subseq (map prop_name temporal) [u ''DTSTART'', u ''DTEND'', u ''DURATION'']"
  by (simp add: names_temporal_lines u_def)

lemma subseq_text: "subseq (map prop_name (text_lines ev)) [u ''DESCRIPTION'', u ''LOCATION'', u ''URL'', u ''CATEGORIES'']"
  by (simp add: names_text_lines u_def)

lemma subseq_enum: "subseq (map prop_name (enum_lines ev)) [u ''STATUS'', u ''TRANSP'', u ''RRULE'']"
  by (simp add: names_enum_lines u_def)

lemma names_alarm: "alarm_lines r = [] \<or> map prop_name (alarm_lines r) = alarm_names"
  by (simp add: names_alarm_lines alarm_names_def) (simp add: alarm_lines_def)


lemma vevent_block:
  assumes "vevent_lines E n ev dflt = Inr ls"
  shows "\<exists>props alarm.
           ls = [u ''BEGIN:VEVENT''] @ props @ alarm @ [u ''END:VEVENT''] \<and>
           subseq (map prop_name props) property_order \<and>
           (alarm = [] \<or> map prop_name alarm = alarm_names) \<and>
           (\<forall>l \<in> set (props @ alarm). plain l)"
proof -
  from assms obtain temporal where
    t: "temporal_lines E (the (date ev)) (the (summary ev)) (time ev) (tz_of ev dflt) (duration_of ev dflt)
          = Inr temporal"
    and ls: "ls = [u ''BEGIN:VEVENT'', u ''UID:'' @ generate_uid E n (the (summary ev)) (the (date ev)),
              u ''DTSTAMP:'' @ utcnow E n] @ temporal @
             [u ''SUMMARY:'' @ escape_text (the (summary ev))] @ text_lines ev @ enum_lines ev @
             alarm_lines (reminder_of ev dflt) @ [u ''END:VEVENT'']"
    by (rule vevent_lines_InrE)
  define props where "props = [u ''UID:'' @ generate_uid E n (the (summary ev)) (the (date ev)),
              u ''DTSTAMP:'' @ utcnow E n] @ temporal @
             [u ''SUMMARY:'' @ escape_text (the (summary ev))] @ text_lines ev @ enum_lines ev"
  have 1: "ls = [u ''BEGIN:VEVENT''] @ props @ alarm_lines (reminder_of ev dflt) @ [u ''END:VEVENT'']"
    unfolding ls props_def by simp
  have "subseq ([u ''UID'', u ''DTSTAMP''] @ map prop_name temporal @ [u ''SUMMARY''] @
                map prop_name (text_lines ev) @ map prop_name (enum_lines ev))
               ([u ''UID'', u ''DTSTAMP''] @ [u ''DTSTART'', u ''DTEND'', u ''DURATION''] @ [u ''SUMMARY''] @
                [u ''DESCRIPTION'', u ''LOCATION'', u ''URL'', u ''CATEGORIES''] @
                [u ''STATUS'', u ''TRANSP'', u ''RRULE''])"
    by (intro list_emb_append_mono subseq_temporal [OF t] subseq_text subseq_enum subseq_order.order_refl)
  then have 2: "subseq (map prop_name props) property_order"
    unfolding props_def property_order_def by simp
  have 3: "\<forall>l \<in> set (props @ alarm_lines (reminder_of ev dflt)). plain l"
    using temporal_lines_plain [OF t] block_lines_plain(1,2) [of ev]
      block_lines_plain(3) [of "reminder_of ev dflt"]
    unfolding props_def by (auto simp: plain_lit)
  show ?thesis
    using 1 2 3 names_alarm [of "reminder_of ev dflt"]
    by (intro exI [of _ props] exI [of _ "alarm_lines (reminder_of ev dflt)"] conjI)
qed

lemma events_loop_Inr:
  "events_loop E n evs d lines = Inr out \<Longrightarrow>
     \<exists>blocks. length blocks = length evs \<and>
       (\<forall>i<length evs. vevent_lines E (n + i) (evs ! i) d = Inr (blocks ! i)) \<and>
       out = lines @ map (join CRLF) blocks"
proof (induction evs arbitrary: n lines)
  case Nil
  then show ?case by simp
next
  case (Cons ev evs)
  from Cons.prems obtain ls where ls: "vevent_lines E n ev d = Inr ls"
    and rest: "events_loop E (Suc n) evs d (lines @ [join CRLF ls]) = Inr out"
    by (auto simp: build_vevent_def split: sum.splits)
  from Cons.IH [OF rest] obtain blocks where
    b: "length blocks = length evs"
      "\<forall>i<length evs. vevent_lines E (Suc n + i) (evs ! i) d = Inr (blocks ! i)"
      "out = (lines @ [join CRLF ls]) @ map (join CRLF) blocks"
    by blast
  have "\<forall>i<length (ev # evs). vevent_lines E (n + i) ((ev # evs) ! i) d = Inr ((ls # blocks) ! i)"
  proof (intro allI impI)
    fix i assume i: "i < length (ev # evs)"
    show "vevent_lines E (n + i) ((ev # evs) ! i) d = Inr ((ls # blocks) ! i)"
    proof (cases i)
      case 0
      then show ?thesis using ls by simp
    next
      case (Suc k)
      then show ?thesis using b(2) i by simp
    qed
  qed
  then show ?case using b(1,3)
    by (intro exI [of _ "ls # blocks"]) simp
qed


lemma join_blocks:
  "\<forall>b \<in> set blocks. b \<noteq> [] \<Longrightarrow>
     join sep (xs @ map (join sep) blocks @ ys) = join sep (xs @ concat blocks @ ys)"
proof (induction blocks arbitrary: xs)
  case Nil
  then show ?case by simp
next
  case (Cons b bs)
  have "join sep (xs @ [join sep b] @ (map (join sep) bs @ ys)) = join sep (xs @ b @ (map (join sep) bs @ ys))"
    using Cons.prems by (intro join_block) simp
  also have "\<dots> = join sep ((xs @ b) @ map (join sep) bs @ ys)" by simp
  also have "\<dots> = join sep ((xs @ b) @ concat bs @ ys)" using Cons.prems by (intro Cons.IH) simp
  finally show ?case by simp
qed

lemma header_fold:
  "l \<in> set calendar_header \<or> l = u ''END:VCALENDAR'' \<Longrightarrow> fold_line l = Inr l"
proof -
  have "fold_line (u ''BEGIN:VCALENDAR'') = Inr (u ''BEGIN:VCALENDAR'')"
    "fold_line (u ''VERSION:2.0'') = Inr (u ''VERSION:2.0'')"
    "fold_line (u ''PRODID:-//Claude//EN'') = Inr (u ''PRODID:-//Claude//EN'')"
    "fold_line (u ''CALSCALE:GREGORIAN'') = Inr (u ''CALSCALE:GREGORIAN'')"
    "fold_line (u ''METHOD:PUBLISH'') = Inr (u ''METHOD:PUBLISH'')"
    "fold_line (u ''END:VCALENDAR'') = Inr (u ''END:VCALENDAR'')"
    by code_simp+
  then show "l \<in> set calendar_header \<or> l = u ''END:VCALENDAR'' \<Longrightarrow> fold_line l = Inr l"
    by (auto simp: calendar_header_def)
qed

lemma header_plain:
  "l \<in> set calendar_header \<or> l = u ''END:VCALENDAR'' \<Longrightarrow> \<not> has_crlf l \<and> plain l"
proof -
  have "\<forall>l \<in> set (calendar_header @ [u ''END:VCALENDAR'']). \<not> has_crlf l \<and> plain l"
    by code_simp
  then show "l \<in> set calendar_header \<or> l = u ''END:VCALENDAR'' \<Longrightarrow> \<not> has_crlf l \<and> plain l"
    by auto
qed

lemma list_all2_same:
  "list_all2 (\<lambda>l f. fold_line l = Inr f) ls fs \<Longrightarrow> \<forall>l \<in> set ls. fold_line l = Inr l \<Longrightarrow> fs = ls"
  by (induction rule: list_all2_induct) auto

lemma filter_concat_one:
  "\<forall>b \<in> set blocks. length (filter P b) = 1 \<Longrightarrow> length (filter P (concat blocks)) = length blocks"
  by (induction blocks) auto


lemma block_shape:
  assumes "vevent_lines E n ev dflt = Inr ls"
  shows "ls \<noteq> []" and "\<forall>l \<in> set ls. \<not> prefix [SP] l"
    and "length (filter (\<lambda>l. l = u ''BEGIN:VEVENT'') ls) = 1"
proof -
  from vevent_block [OF assms] obtain props alarm where
    b: "ls = [u ''BEGIN:VEVENT''] @ props @ alarm @ [u ''END:VEVENT'']"
      "\<forall>l \<in> set (props @ alarm). plain l"
    by blast
  show "ls \<noteq> []" using b(1) by simp
  have e: "\<not> prefix [SP] (u ''BEGIN:VEVENT'')" "\<not> prefix [SP] (u ''END:VEVENT'')"
    "u ''END:VEVENT'' \<noteq> u ''BEGIN:VEVENT''"
    by (simp_all add: u_def SP_def)
  show "\<forall>l \<in> set ls. \<not> prefix [SP] l" using b e by (auto simp: plain_def)
  have "filter (\<lambda>l. l = u ''BEGIN:VEVENT'') (props @ alarm) = []"
    using b(2) by (auto simp: plain_def filter_empty_conv)
  then show "length (filter (\<lambda>l. l = u ''BEGIN:VEVENT'') ls) = 1"
    unfolding b(1) using e(3) by simp
qed

lemma generate_ics_InrE:
  assumes "generate_ics E data = Inr out"
  obtains evs blocks where
    "events data = Some evs" "evs \<noteq> []" "length blocks = length evs"
    "\<forall>i<length evs. vevent_lines E i (evs ! i) (make_defaults data) = Inr (blocks ! i)"
    "fold_content (join CRLF (calendar_header @ concat blocks @ [u ''END:VCALENDAR''])) = Inr out"
proof -
  from assms obtain evs where evs: "events data = Some evs" "evs \<noteq> []"
    by (cases "events data") (auto simp: generate_ics_def truthy_def split: if_splits)
  from assms evs obtain lines where
    l: "events_loop E 0 evs (make_defaults data) calendar_header = Inr lines"
      "fold_content (join CRLF (lines @ [u ''END:VCALENDAR''])) = Inr out"
    by (auto simp: generate_ics_def truthy_def split: sum.splits)
  from events_loop_Inr [OF l(1)] obtain blocks where
    b: "length blocks = length evs"
      "\<forall>i<length evs. vevent_lines E (0 + i) (evs ! i) (make_defaults data) = Inr (blocks ! i)"
      "lines = calendar_header @ map (join CRLF) blocks"
    by blast
  have ne: "\<forall>b \<in> set blocks. b \<noteq> []"
  proof
    fix x assume "x \<in> set blocks"
    then obtain i where "i < length blocks" "blocks ! i = x" by (auto simp: in_set_conv_nth)
    then have "vevent_lines E (0 + i) (evs ! i) (make_defaults data) = Inr x" using b(1,2) by simp
    then show "x \<noteq> []" by (rule block_shape(1))
  qed
  have "join CRLF (lines @ [u ''END:VCALENDAR''])
          = join CRLF (calendar_header @ concat blocks @ [u ''END:VCALENDAR''])"
    unfolding b(3) using join_blocks [OF ne, of CRLF calendar_header "[u ''END:VCALENDAR'']"] by simp
  then show ?thesis using that [OF evs b(1)] b(2) l(2) by simp
qed

text \<open>
  Claim C5, as amended.  A generated text comes from a non-empty event sequence whose
  records were all built, one block of lines per record, in input order; every block
  opens with BEGIN:VEVENT and closes with END:VEVENT, and between them stand the
  property lines, in the order UID, DTSTAMP, DTSTART, DTEND or DURATION, SUMMARY,
  DESCRIPTION, LOCATION, URL, CATEGORIES, STATUS, TRANSP, RRULE, and then the alarm block
  if there is one.  Provided that no built line contains a line terminator, the logical
  lines of the text are the header lines, the blocks and END:VCALENDAR; the text starts
  with the header and ends with END:VCALENDAR; and it contains exactly one event block
  per input record.
\<close>

theorem document_structure:
  assumes "generate_ics E data = Inr out"
  shows "\<exists>evs blocks.
     events data = Some evs \<and> evs \<noteq> [] \<and> length blocks = length evs \<and>
     (\<forall>i<length evs. vevent_lines E i (evs ! i) (make_defaults data) = Inr (blocks ! i)) \<and>
     (\<forall>i<length evs. \<exists>props alarm.
         blocks ! i = [u ''BEGIN:VEVENT''] @ props @ alarm @ [u ''END:VEVENT''] \<and>
         subseq (map prop_name props) property_order \<and>
         (alarm = [] \<or> map prop_name alarm = alarm_names) \<and>
         u ''BEGIN:VEVENT'' \<notin> set (props @ alarm) \<and> u ''END:VEVENT'' \<notin> set (props @ alarm)) \<and>
     ((\<forall>l \<in> set (concat blocks). \<not> has_crlf l) \<longrightarrow>
        logical_lines out = calendar_header @ concat blocks @ [u ''END:VCALENDAR''] \<and>
        prefix (join CRLF calendar_header @ CRLF) out \<and>
        suffix (CRLF @ u ''END:VCALENDAR'') out \<and>
        count_vevents out = length evs)"
proof -
  from assms obtain evs blocks where
    g: "events data = Some evs" "evs \<noteq> []" "length blocks = length evs"
      "\<forall>i<length evs. vevent_lines E i (evs ! i) (make_defaults data) = Inr (blocks ! i)"
      "fold_content (join CRLF (calendar_header @ concat blocks @ [u ''END:VCALENDAR''])) = Inr out"
    by (rule generate_ics_InrE)
  define L where "L = calendar_header @ concat blocks @ [u ''END:VCALENDAR'']"
  have built: "\<exists>n ev. vevent_lines E n ev (make_defaults data) = Inr b" if "b \<in> set blocks" for b
  proof -
    from that obtain i where "i < length blocks" "blocks ! i = b" by (auto simp: in_set_conv_nth)
    then have "vevent_lines E i (evs ! i) (make_defaults data) = Inr b" using g(3,4) by simp
    then show ?thesis by (intro exI)
  qed
  have order: "\<forall>i<length evs. \<exists>props alarm.
         blocks ! i = [u ''BEGIN:VEVENT''] @ props @ alarm @ [u ''END:VEVENT''] \<and>
         subseq (map prop_name props) property_order \<and>
         (alarm = [] \<or> map prop_name alarm = alarm_names) \<and>
         u ''BEGIN:VEVENT'' \<notin> set (props @ alarm) \<and> u ''END:VEVENT'' \<notin> set (props @ alarm)"
  proof (intro allI impI)
    fix i assume "i < length evs"
    with g(4) have "vevent_lines E i (evs ! i) (make_defaults data) = Inr (blocks ! i)" by blast
    from vevent_block [OF this] obtain props alarm where
      v: "blocks ! i = [u ''BEGIN:VEVENT''] @ props @ alarm @ [u ''END:VEVENT'']"
        "subseq (map prop_name props) property_order"
        "alarm = [] \<or> map prop_name alarm = alarm_names"
        "\<forall>l \<in> set (props @ alarm). plain l"
      by blast
    have n1: "u ''BEGIN:VEVENT'' \<notin> set (props @ alarm)"
    proof
      assume "u ''BEGIN:VEVENT'' \<in> set (props @ alarm)"
      with v(4) have "plain (u ''BEGIN:VEVENT'')" by (rule bspec)
      then show False by (simp add: plain_def)
    qed
    have n2: "u ''END:VEVENT'' \<notin> set (props @ alarm)"
    proof
      assume "u ''END:VEVENT'' \<in> set (props @ alarm)"
      with v(4) have "plain (u ''END:VEVENT'')" by (rule bspec)
      then show False by (simp add: plain_def)
    qed
    show "\<exists>props alarm.
         blocks ! i = [u ''BEGIN:VEVENT''] @ props @ alarm @ [u ''END:VEVENT''] \<and>
         subseq (map prop_name props) property_order \<and>
         (alarm = [] \<or> map prop_name alarm = alarm_names) \<and>
         u ''BEGIN:VEVENT'' \<notin> set (props @ alarm) \<and> u ''END:VEVENT'' \<notin> set (props @ alarm)"
      by (rule exI [of _ props], rule exI [of _ alarm]) (intro conjI v(1,2,3) n1 n2)
  qed
  have whole: "logical_lines out = L \<and> prefix (join CRLF calendar_header @ CRLF) out \<and>
        suffix (CRLF @ u ''END:VCALENDAR'') out \<and> count_vevents out = length evs"
    if nc: "\<forall>l \<in> set (concat blocks). \<not> has_crlf l"
  proof -
    have nsp: "\<forall>l \<in> set (concat blocks). \<not> prefix [SP] l"
    proof
      fix l assume "l \<in> set (concat blocks)"
      then obtain b where b: "b \<in> set blocks" "l \<in> set b" by auto
      from built [OF b(1)] obtain n ev where "vevent_lines E n ev (make_defaults data) = Inr b" by blast
      from block_shape(2) [OF this] b(2) show "\<not> prefix [SP] l" by (rule bspec)
    qed
    have all: "\<forall>l \<in> set L. \<not> has_crlf l \<and> \<not> prefix [SP] l"
      unfolding L_def using nc nsp header_plain by (auto simp: plain_def)
    have "L \<noteq> []" unfolding L_def by simp
    from fold_content_lines [OF g(5) [folded L_def] this all] obtain fs where
      ll: "logical_lines out = L"
      and fs: "list_all2 (\<lambda>l f. fold_line l = Inr f) L fs" "out = join CRLF fs"
      by blast
    from fs(1) obtain f1 f2 f3 where
      f: "fs = f1 @ f2 @ f3" "list_all2 (\<lambda>l f. fold_line l = Inr f) calendar_header f1"
        "list_all2 (\<lambda>l f. fold_line l = Inr f) [u ''END:VCALENDAR''] f3"
      unfolding L_def by (auto simp: list_all2_append1)
    have f1: "f1 = calendar_header" using f(2) header_fold by (intro list_all2_same) auto
    have f3: "f3 = [u ''END:VCALENDAR'']" using f(3) header_fold by (intro list_all2_same) auto
    have h: "calendar_header \<noteq> []" by (simp add: calendar_header_def)
    have "out = join CRLF calendar_header @ CRLF @ join CRLF (f2 @ f3)"
      unfolding fs(2) f(1) f1 using h f3 by (intro join_append) simp_all
    then have pre: "prefix (join CRLF calendar_header @ CRLF) out" by (simp add: prefix_def)
    have "out = join CRLF ((calendar_header @ f2) @ [u ''END:VCALENDAR''])"
      unfolding fs(2) f(1) f1 f3 by simp
    also have "\<dots> = join CRLF (calendar_header @ f2) @ CRLF @ join CRLF [u ''END:VCALENDAR'']"
      using h by (intro join_append) simp_all
    finally have suf: "suffix (CRLF @ u ''END:VCALENDAR'') out" by (simp add: suffix_def)
    have hb: "filter (\<lambda>l. l = u ''BEGIN:VEVENT'') calendar_header = []"
      "u ''END:VCALENDAR'' \<noteq> u ''BEGIN:VEVENT''"
      using header_plain by (auto simp: plain_def filter_empty_conv)
    have "\<forall>b \<in> set blocks. length (filter (\<lambda>l. l = u ''BEGIN:VEVENT'') b) = 1"
    proof
      fix b assume "b \<in> set blocks"
      from built [OF this] obtain n ev where "vevent_lines E n ev (make_defaults data) = Inr b" by blast
      then show "length (filter (\<lambda>l. l = u ''BEGIN:VEVENT'') b) = 1" by (rule block_shape(3))
    qed
    then have "length (filter (\<lambda>l. l = u ''BEGIN:VEVENT'') (concat blocks)) = length blocks"
      by (rule filter_concat_one)
    then have "count_vevents out = length evs"
      unfolding count_vevents_def ll L_def using hb g(3) by simp
    with ll pre suf show ?thesis by (intro conjI)
  qed
  show ?thesis
  proof (rule exI [of _ evs], rule exI [of _ blocks], intro conjI impI)
    assume "\<forall>l \<in> set (concat blocks). \<not> has_crlf l"
    from whole [OF this]
    show "logical_lines out = calendar_header @ concat blocks @ [u ''END:VCALENDAR'']"
      "prefix (join CRLF calendar_header @ CRLF) out" "suffix (CRLF @ u ''END:VCALENDAR'') out"
      "count_vevents out = length evs"
      unfolding L_def by simp_all
  qed (rule g order)+
qed


lemma two_blocks: "length bs = 2 \<Longrightarrow> bs = [bs ! 0, bs ! 1]"
  by (cases bs; cases "tl bs") auto

theorem document_structure_witness:
  "generate_ics example_env two_event_document =
     Inr (join CRLF (calendar_header @ launch_lines @ sync_lines @ [u ''END:VCALENDAR''])) \<and>
   logical_lines (join CRLF (calendar_header @ launch_lines @ sync_lines @ [u ''END:VCALENDAR'']))
     = calendar_header @ launch_lines @ sync_lines @ [u ''END:VCALENDAR''] \<and>
   count_vevents (join CRLF (calendar_header @ launch_lines @ sync_lines @ [u ''END:VCALENDAR''])) = 2"
proof -
  define out where "out = join CRLF (calendar_header @ launch_lines @ sync_lines @ [u ''END:VCALENDAR''])"
  have g: "generate_ics example_env two_event_document = Inr out"
    unfolding out_def by code_simp
  have e: "events two_event_document = Some [example_event, sync_event]"
    by (simp add: two_event_document_def)
  have b0: "vevent_lines example_env 0 example_event (make_defaults two_event_document) = Inr launch_lines"
    by code_simp
  have b1: "vevent_lines example_env 1 sync_event (make_defaults two_event_document) = Inr sync_lines"
    by code_simp
  have nc: "\<forall>l \<in> set (launch_lines @ sync_lines). \<not> has_crlf l"
    by code_simp
  from document_structure [OF g] obtain evs blocks where
    r: "events two_event_document = Some evs" "length blocks = length evs"
      "\<forall>i<length evs. vevent_lines example_env i (evs ! i) (make_defaults two_event_document)
          = Inr (blocks ! i)"
      "(\<forall>l \<in> set (concat blocks). \<not> has_crlf l) \<longrightarrow>
        logical_lines out = calendar_header @ concat blocks @ [u ''END:VCALENDAR''] \<and>
        prefix (join CRLF calendar_header @ CRLF) out \<and>
        suffix (CRLF @ u ''END:VCALENDAR'') out \<and>
        count_vevents out = length evs"
    by blast
  have evs: "evs = [example_event, sync_event]" using r(1) e by simp
  have "blocks ! 0 = launch_lines" "blocks ! 1 = sync_lines"
    using r(3) b0 b1 unfolding evs by (simp_all add: less_Suc_eq)
  moreover have "length blocks = 2" using r(2) evs by simp
  ultimately have blocks: "blocks = [launch_lines, sync_lines]" using two_blocks [of blocks] by simp
  have "logical_lines out = calendar_header @ concat blocks @ [u ''END:VCALENDAR''] \<and>
        prefix (join CRLF calendar_header @ CRLF) out \<and>
        suffix (CRLF @ u ''END:VCALENDAR'') out \<and>
        count_vevents out = length evs"
    using r(4) nc unfolding blocks by simp
  then have "logical_lines out = calendar_header @ launch_lines @ sync_lines @ [u ''END:VCALENDAR'']"
    "count_vevents out = 2"
    unfolding blocks evs by simp_all
  with g show ?thesis unfolding out_def by (intro conjI)
qed

text \<open>
  Claim C5 as stated fails for a record whose url carries line terminators: the url is
  emitted as it is, and the text of this one record has two lines that open an event.
\<close>

theorem document_structure_counterexample:
  "events injected_document = Some [injected_event] \<and>
   generate_ics example_env injected_document =
     Inr (join CRLF
       [u ''BEGIN:VCALENDAR'', u ''VERSION:2.0'', u ''PRODID:-//Claude//EN'', u ''CALSCALE:GREGORIAN'',
        u ''METHOD:PUBLISH'', u ''BEGIN:VEVENT'', u ''UID:launch-2024-03-10-01234567@claude'',
        u ''DTSTAMP:20240101T120000Z'', u ''DTSTART;VALUE=DATE:20240310'',
        u ''DTEND;VALUE=DATE:20240311'', u ''SUMMARY:Launch'', u ''URL:x'', u ''END:VEVENT'',
        u ''BEGIN:VEVENT'', u ''END:VEVENT'', u ''END:VCALENDAR'']) \<and>
   count_vevents (join CRLF
       [u ''BEGIN:VCALENDAR'', u ''VERSION:2.0'', u ''PRODID:-//Claude//EN'', u ''CALSCALE:GREGORIAN'',
        u ''METHOD:PUBLISH'', u ''BEGIN:VEVENT'', u ''UID:launch-2024-03-10-01234567@claude'',
        u ''DTSTAMP:20240101T120000Z'', u ''DTSTART;VALUE=DATE:20240310'',
        u ''DTEND;VALUE=DATE:20240311'', u ''SUMMARY:Launch'', u ''URL:x'', u ''END:VEVENT'',
        u ''BEGIN:VEVENT'', u ''END:VEVENT'', u ''END:VCALENDAR'']) = 2"
  by code_simp

end
